theory Spec2Isabelle
  imports Complex_Main
begin

section \<open>JavaScript values\<close>

text \<open>What \<^verbatim>\<open>JSON.parse\<close>, \<^verbatim>\<open>JSON.stringify\<close> and \<^verbatim>\<open>String\<close> throw.\<close>

datatype js_error = SyntaxError | TypeError

text \<open>
  The values that cross the codec of \<^verbatim>\<open>src/index.ts\<close>. The constructors are the classes
  that the tests of \<^verbatim>\<open>safeJsonParse\<close> and \<^verbatim>\<open>safeSerialize\<close> tell apart:
  \<^verbatim>\<open>null\<close>, the primitives (\<^verbatim>\<open>typeof value !== "object"\<close>), arrays
  (\<^verbatim>\<open>Array.isArray\<close>), plain objects (tag \<^verbatim>\<open>[object Object]\<close>) and every other
  object (\<^verbatim>\<open>Date\<close>, \<^verbatim>\<open>RegExp\<close>, ...). Functions, symbols and big integers are not
  values of the model.

  The number type \<open>'n\<close> stays a parameter: the code never computes on numbers.
  A plain object is the list of its own enumerable properties in enumeration order, its
  prototype being \<^verbatim>\<open>Object.prototype\<close>. An object of another class is known by the two
  observations the code makes of it: its \<^verbatim>\<open>Object.prototype.toString\<close> tag and what
  \<^verbatim>\<open>String(value)\<close> does, which returns a string or throws.
\<close>

datatype 'n jsval =
    JUndefined
  | JNull
  | JBool bool
  | JNum 'n
  | JStr string
  | JArr "'n jsval list"
  | JObj "(string \<times> 'n jsval) list"
  | JOther string "js_error + string"

type_synonym 'n props = "(string \<times> 'n jsval) list"

text \<open>
  The functions of the host platform that the module calls and does not define. They are
  parameters of the model; a throwing call returns \<open>Inl\<close>. \<^verbatim>\<open>JSON.stringify\<close> returns a
  string or \<^verbatim>\<open>undefined\<close> (\<open>None\<close>), as for an object whose \<^verbatim>\<open>toJSON\<close> gives
  \<^verbatim>\<open>undefined\<close>.
\<close>

record 'n platform =
  JSON_parse :: "string \<Rightarrow> js_error + 'n jsval"
  JSON_stringify :: "'n jsval \<Rightarrow> js_error + string option"
  Number_toString :: "'n \<Rightarrow> string"
  String_toLowerCase :: "string \<Rightarrow> string"
  URLSearchParams_toString :: "(string \<times> string) list \<Rightarrow> string"

fun typeof :: "'n jsval \<Rightarrow> string" where
  "typeof JUndefined = ''undefined''"
| "typeof JNull = ''object''"
| "typeof (JBool b) = ''boolean''"
| "typeof (JNum n) = ''number''"
| "typeof (JStr s) = ''string''"
| "typeof (JArr xs) = ''object''"
| "typeof (JObj ps) = ''object''"
| "typeof (JOther tag str) = ''object''"

fun Array_isArray :: "'n jsval \<Rightarrow> bool" where
  "Array_isArray (JArr xs) = True"
| "Array_isArray v = False"

text \<open>\<^verbatim>\<open>Object.prototype.toString.call(value)\<close>.\<close>

fun Object_toString :: "'n jsval \<Rightarrow> string" where
  "Object_toString JUndefined = ''[object Undefined]''"
| "Object_toString JNull = ''[object Null]''"
| "Object_toString (JBool b) = ''[object Boolean]''"
| "Object_toString (JNum n) = ''[object Number]''"
| "Object_toString (JStr s) = ''[object String]''"
| "Object_toString (JArr xs) = ''[object Array]''"
| "Object_toString (JObj ps) = ''[object Object]''"
| "Object_toString (JOther tag str) = tag"

subsection \<open>Own properties of an object\<close>

definition hasOwnProperty :: "'n props \<Rightarrow> string \<Rightarrow> bool" where
  "hasOwnProperty obj key = (key \<in> set (map fst obj))"

text \<open>\<^verbatim>\<open>obj[key]\<close> for an own property, \<^verbatim>\<open>undefined\<close> when there is none.\<close>

definition obj_get :: "'n props \<Rightarrow> string \<Rightarrow> 'n jsval" where
  "obj_get obj key = (case map_of obj key of Some v \<Rightarrow> v | None \<Rightarrow> JUndefined)"

text \<open>
  An object enumerates its own string keys that are array indices first, in ascending
  numeric order, and then the other keys in the order of their creation. An array index
  is the canonical decimal form of a number from 0 to \<open>2\<^sup>3\<^sup>2 - 2\<close>.
\<close>

definition is_digit :: "char \<Rightarrow> bool" where
  "is_digit c = (48 \<le> (of_char c :: nat) \<and> (of_char c :: nat) \<le> 57)"

definition decimal_value :: "string \<Rightarrow> nat" where
  "decimal_value s = foldl (\<lambda>n c. 10 * n + ((of_char c :: nat) - 48)) 0 s"

definition array_index :: "string \<Rightarrow> nat option" where
  "array_index s =
     (if s = [] \<or> \<not> list_all is_digit s \<or> (1 < length s \<and> hd s = CHR ''0'') then None
      else if decimal_value s \<le> 4294967294 then Some (decimal_value s)
      else None)"

text \<open>Whether a new key \<open>k\<close> is enumerated before the key \<open>k'\<close>.\<close>

definition precedes :: "string \<Rightarrow> string \<Rightarrow> bool" where
  "precedes k k' =
     (case array_index k of
        None \<Rightarrow> False
      | Some i \<Rightarrow> (case array_index k' of None \<Rightarrow> True | Some j \<Rightarrow> i < j))"

fun obj_insert :: "'n props \<Rightarrow> string \<Rightarrow> 'n jsval \<Rightarrow> 'n props" where
  "obj_insert [] key v = [(key, v)]"
| "obj_insert ((k, w) # ps) key v =
     (if precedes key k then (key, v) # (k, w) # ps else (k, w) # obj_insert ps key v)"

text \<open>
  Writing an own data property: an existing one keeps its place and takes the value, a new
  one takes its place in the enumeration order.
\<close>

definition obj_update :: "'n props \<Rightarrow> string \<Rightarrow> 'n jsval \<Rightarrow> 'n props" where
  "obj_update ps key v =
     (if hasOwnProperty ps key then map (\<lambda>kw. if fst kw = key then (key, v) else kw) ps
      else obj_insert ps key v)"

text \<open>
  An object under construction: its prototype and its own properties. The prototype is
  \<^verbatim>\<open>Object.prototype\<close>, or \<^verbatim>\<open>null\<close>, or a decoded value (an array or an object, whose own
  prototype chain ends in \<^verbatim>\<open>Object.prototype\<close>).
\<close>

datatype 'n proto = ObjectPrototype | NullPrototype | Decoded "'n jsval"

record 'n object =
  proto :: "'n proto"
  own :: "'n props"

text \<open>The literal \<^verbatim>\<open>{}\<close>.\<close>

definition empty_object_literal :: "'n object" where
  "empty_object_literal = \<lparr> proto = ObjectPrototype, own = [] \<rparr>"

text \<open>
  \<^verbatim>\<open>target[key] = v\<close>. The one accessor that a data object inherits is \<^verbatim>\<open>__proto__\<close> of
  \<^verbatim>\<open>Object.prototype\<close>: when \<open>target\<close> has no own property of that name and the accessor
  is reached along its prototype chain (no object on the way has an own property of that
  name), the assignment replaces the prototype of \<open>target\<close> by \<open>v\<close> when \<open>v\<close> is an
  object or \<^verbatim>\<open>null\<close>, and does nothing when \<open>v\<close> is a primitive. Every other assignment
  writes an own data property of \<open>target\<close>.
\<close>

fun reaches_proto_accessor :: "'n proto \<Rightarrow> bool" where
  "reaches_proto_accessor ObjectPrototype = True"
| "reaches_proto_accessor NullPrototype = False"
| "reaches_proto_accessor (Decoded (JObj ps)) = (\<not> hasOwnProperty ps ''__proto__'')"
| "reaches_proto_accessor (Decoded v) = True"

definition obj_assign :: "'n object \<Rightarrow> string \<Rightarrow> 'n jsval \<Rightarrow> 'n object" where
  "obj_assign target key v =
     (if key = ''__proto__'' \<and> \<not> hasOwnProperty (own target) key
         \<and> reaches_proto_accessor (proto target)
      then (if v = JNull then target\<lparr>proto := NullPrototype\<rparr>
            else if typeof v = ''object'' then target\<lparr>proto := Decoded v\<rparr>
            else target)
      else target\<lparr>own := obj_update (own target) key v\<rparr>)"

subsection \<open>String(value)\<close>

text \<open>
  \<^verbatim>\<open>String(value)\<close>. An array joins the forms of its elements with commas, \<^verbatim>\<open>null\<close> and
  \<^verbatim>\<open>undefined\<close> elements giving the empty string. A plain object gives
  \<^verbatim>\<open>[object Object]\<close> by the inherited \<^verbatim>\<open>toString\<close>; an own property of that name, which
  holds data and cannot be called, leaves no way to a primitive and the conversion throws.
\<close>

fun join_comma :: "string list \<Rightarrow> string" where
  "join_comma [] = []"
| "join_comma [s] = s"
| "join_comma (s # t # ss) = s @ '','' @ join_comma (t # ss)"

fun all_or_first_error :: "(js_error + string) list \<Rightarrow> js_error + string list" where
  "all_or_first_error [] = Inr []"
| "all_or_first_error (Inl e # rs) = Inl e"
| "all_or_first_error (Inr s # rs) =
     (case all_or_first_error rs of Inl e \<Rightarrow> Inl e | Inr ss \<Rightarrow> Inr (s # ss))"

fun String_of :: "'n platform \<Rightarrow> 'n jsval \<Rightarrow> js_error + string" where
  "String_of p JUndefined = Inr ''undefined''"
| "String_of p JNull = Inr ''null''"
| "String_of p (JBool b) = Inr (if b then ''true'' else ''false'')"
| "String_of p (JNum n) = Inr (Number_toString p n)"
| "String_of p (JStr s) = Inr s"
| "String_of p (JArr xs) =
     (case all_or_first_error
             (map (\<lambda>x. if x = JNull \<or> x = JUndefined then Inr [] else String_of p x) xs) of
        Inl e \<Rightarrow> Inl e
      | Inr ss \<Rightarrow> Inr (join_comma ss))"
| "String_of p (JObj ps) =
     (if hasOwnProperty ps ''toString'' then Inl TypeError else Inr ''[object Object]'')"
| "String_of p (JOther tag str) = str"

section \<open>The codec\<close>

text \<open>
  \<^verbatim>\<open>safeJsonParse\<close> (lines 84 to 135). The whole body is inside \<^verbatim>\<open>try\<close>; the only call
  that throws is \<^verbatim>\<open>JSON.parse\<close>, and the handler returns the raw string. In the second
  test an object that carries the tag \<^verbatim>\<open>[object Object]\<close> without being a \<open>JObj\<close> has no
  own property that the model knows of, so it is returned as it is.
\<close>

definition hasDangerousKeys :: "'n props \<Rightarrow> bool" where
  "hasDangerousKeys obj =
     (hasOwnProperty obj ''__proto__'' \<or> hasOwnProperty obj ''constructor''
      \<or> hasOwnProperty obj ''prototype'')"

text \<open>
  The \<^verbatim>\<open>for (const key in obj)\<close> loop of lines 115 to 126, over the own keys of \<open>obj\<close> in
  enumeration order, building \<open>sanitized\<close> from the literal \<^verbatim>\<open>{}\<close> of line 114. (The
  keys that \<open>obj\<close> inherits fail the test of line 119; the sweep on a store, below, has
  them.)
\<close>

definition sanitize_step :: "'n props \<Rightarrow> 'n object \<Rightarrow> string \<Rightarrow> 'n object" where
  "sanitize_step obj sanitized key =
     (if hasOwnProperty obj key \<and> key \<noteq> ''__proto__'' \<and> key \<noteq> ''constructor''
         \<and> key \<noteq> ''prototype''
      then obj_assign sanitized key (obj_get obj key)
      else sanitized)"

definition sanitized_object :: "'n props \<Rightarrow> 'n object" where
  "sanitized_object obj = foldl (sanitize_step obj) empty_object_literal (map fst obj)"

definition sanitize :: "'n props \<Rightarrow> 'n props" where
  "sanitize obj = own (sanitized_object obj)"

definition safeJsonParse :: "'n platform \<Rightarrow> string \<Rightarrow> 'n jsval" where
  "safeJsonParse p value =
     (case JSON_parse p value of
        Inl e \<Rightarrow> JStr value
      | Inr parsed \<Rightarrow>
          if parsed \<noteq> JNull \<and> typeof parsed = ''object'' \<and> \<not> Array_isArray parsed
             \<and> Object_toString parsed \<noteq> ''[object Object]''
          then JStr value
          else if parsed \<noteq> JNull \<and> typeof parsed = ''object'' \<and> \<not> Array_isArray parsed
             \<and> Object_toString parsed = ''[object Object]''
          then (case parsed of
                  JObj obj \<Rightarrow> if hasDangerousKeys obj then JObj (sanitize obj) else parsed
                | _ \<Rightarrow> parsed)
          else parsed)"

text \<open>
  \<^verbatim>\<open>safeSerialize\<close> (lines 141 to 176). It returns what the function returns, a string or
  (from \<^verbatim>\<open>JSON.stringify\<close>) \<^verbatim>\<open>undefined\<close>, with the diagnostics it sent to
  \<^verbatim>\<open>console.warn\<close>; or it throws: the two calls of \<^verbatim>\<open>String\<close>, at lines 149 and 175, are
  outside every \<^verbatim>\<open>try\<close>.
\<close>

datatype diagnostic =
    SerializeArrayFailed js_error
  | SerializeObjectFailed js_error
  | SensitiveField string
  | UrlTooLong nat nat

definition safeSerialize ::
  "'n platform \<Rightarrow> 'n jsval \<Rightarrow> js_error + string option \<times> diagnostic list" where
  "safeSerialize p value =
     (if value = JNull then Inr (Some '''', [])
      else if typeof value \<noteq> ''object'' then
        (case String_of p value of Inl e \<Rightarrow> Inl e | Inr s \<Rightarrow> Inr (Some s, []))
      else if Array_isArray value then
        (case JSON_stringify p value of
           Inr s \<Rightarrow> Inr (s, [])
         | Inl error \<Rightarrow> Inr (Some '''', [SerializeArrayFailed error]))
      else if Object_toString value = ''[object Object]'' then
        (case JSON_stringify p value of
           Inr s \<Rightarrow> Inr (s, [])
         | Inl error \<Rightarrow> Inr (Some '''', [SerializeObjectFailed error]))
      else (case String_of p value of Inl e \<Rightarrow> Inl e | Inr s \<Rightarrow> Inr (Some s, [])))"

subsection \<open>The sweep on a store\<close>

text \<open>
  Lines 114 to 127 once more, on an explicit store, to say what the call writes. The store
  holds objects at addresses; address 0 holds \<^verbatim>\<open>Object.prototype\<close>, whose \<open>own\<close> list is
  its enumerable properties (none, unless some code has added one). The object that
  \<^verbatim>\<open>JSON.parse\<close> made is at an address \<open>a\<close>; its prototype is \<^verbatim>\<open>Object.prototype\<close>.
\<close>

type_synonym addr = nat

record 'n store =
  cells :: "addr \<Rightarrow> 'n object option"
  next_addr :: addr

definition Object_prototype :: addr where
  "Object_prototype = 0"

definition alloc :: "'n store \<Rightarrow> 'n object \<Rightarrow> addr \<times> 'n store" where
  "alloc s ob =
     (next_addr s, s\<lparr>cells := (cells s)(next_addr s \<mapsto> ob), next_addr := Suc (next_addr s)\<rparr>)"

definition own_at :: "'n store \<Rightarrow> addr \<Rightarrow> 'n props" where
  "own_at s a = (case cells s a of Some ob \<Rightarrow> own ob | None \<Rightarrow> [])"

text \<open>
  The names that \<^verbatim>\<open>for (const key in obj)\<close> visits, for an object whose prototype is
  \<^verbatim>\<open>Object.prototype\<close>: the own keys, then the enumerable keys of \<^verbatim>\<open>Object.prototype\<close>
  that the object does not shadow.
\<close>

definition for_in_keys :: "'n store \<Rightarrow> addr \<Rightarrow> string list" where
  "for_in_keys s a =
     map fst (own_at s a)
     @ filter (\<lambda>k. \<not> hasOwnProperty (own_at s a) k) (map fst (own_at s Object_prototype))"

text \<open>
  \<^verbatim>\<open>obj[key]\<close> for such an object: the own property, else the one inherited from
  \<^verbatim>\<open>Object.prototype\<close>, else \<^verbatim>\<open>undefined\<close>.
\<close>

definition store_get :: "'n store \<Rightarrow> addr \<Rightarrow> string \<Rightarrow> 'n jsval" where
  "store_get s a key =
     (if hasOwnProperty (own_at s a) key then obj_get (own_at s a) key
      else obj_get (own_at s Object_prototype) key)"

definition store_assign :: "'n store \<Rightarrow> addr \<Rightarrow> string \<Rightarrow> 'n jsval \<Rightarrow> 'n store" where
  "store_assign s b key v =
     (case cells s b of
        None \<Rightarrow> s
      | Some target \<Rightarrow> s\<lparr>cells := (cells s)(b \<mapsto> obj_assign target key v)\<rparr>)"

definition sweep_step :: "addr \<Rightarrow> addr \<Rightarrow> 'n store \<Rightarrow> string \<Rightarrow> 'n store" where
  "sweep_step a b s key =
     (if hasOwnProperty (own_at s a) key \<and> key \<noteq> ''__proto__'' \<and> key \<noteq> ''constructor''
         \<and> key \<noteq> ''prototype''
      then store_assign s b key (store_get s a key)
      else s)"

definition sweep :: "'n store \<Rightarrow> addr \<Rightarrow> addr \<times> 'n store" where
  "sweep s a =
     (case alloc s empty_object_literal of
        (b, s1) \<Rightarrow> (b, foldl (sweep_step a b) s1 (for_in_keys s1 a)))"

section \<open>The query-parameter mapping\<close>

text \<open>
  A \<^verbatim>\<open>URLSearchParams\<close> is an ordered list of name and value pairs, names may repeat.
  \<^verbatim>\<open>delete\<close> removes every pair of a name; \<^verbatim>\<open>set\<close> gives the first pair of the name the
  value and removes the others, or appends a pair when there is none; the copy constructor
  \<^verbatim>\<open>new URLSearchParams(params)\<close> yields the same list; \<^verbatim>\<open>forEach\<close> visits the pairs in
  order.
\<close>

type_synonym params = "(string \<times> string) list"

definition params_delete :: "string \<Rightarrow> params \<Rightarrow> params" where
  "params_delete name ps = filter (\<lambda>kv. fst kv \<noteq> name) ps"

fun params_set :: "string \<Rightarrow> string \<Rightarrow> params \<Rightarrow> params" where
  "params_set name value [] = [(name, value)]"
| "params_set name value ((k, v) # ps) =
     (if k = name then (k, value) # params_delete name ps
      else (k, v) # params_set name value ps)"

definition searchParamsToString :: "'n platform \<Rightarrow> params \<Rightarrow> string" where
  "searchParamsToString p ps = URLSearchParams_toString p ps"

section \<open>The sensitive-field diagnostic\<close>

definition SENSITIVE_FIELD_PATTERNS :: "string list" where
  "SENSITIVE_FIELD_PATTERNS =
     [''password'', ''pwd'', ''pass'', ''secret'', ''token'', ''apiKey'', ''apikey'', ''auth'',
      ''credential'', ''ssn'', ''socialSecurity'', ''creditCard'', ''cardNumber'', ''cvv'',
      ''cvc'', ''pin'', ''ssn'', ''sin'', ''accountNumber'', ''routingNumber'', ''bankAccount'']"

fun startsWith :: "string \<Rightarrow> string \<Rightarrow> bool" where
  "startsWith s [] = True"
| "startsWith [] (c # pat) = False"
| "startsWith (d # s) (c # pat) = (d = c \<and> startsWith s pat)"

fun str_includes :: "string \<Rightarrow> string \<Rightarrow> bool" where
  "str_includes [] pat = (pat = [])"
| "str_includes (c # s) pat = (startsWith (c # s) pat \<or> str_includes s pat)"

record options =
  debounce :: nat
  maxUrlLength :: nat
  excludeFields :: "string list"
  NODE_ENV :: string

definition warnIfSensitiveField :: "'n platform \<Rightarrow> options \<Rightarrow> string \<Rightarrow> diagnostic list" where
  "warnIfSensitiveField p opts fieldName =
     (if NODE_ENV opts \<noteq> ''development'' then []
      else if fieldName \<in> set (excludeFields opts) then []
      else let lowerFieldName = String_toLowerCase p fieldName;
               isSensitive = list_ex (\<lambda>pattern. str_includes lowerFieldName
                                                  (String_toLowerCase p pattern))
                               SENSITIVE_FIELD_PATTERNS
           in if isSensitive then [SensitiveField fieldName] else [])"

section \<open>The hook\<close>

text \<open>
  The four refs of \<^verbatim>\<open>useSyncUrl\<close>, the runtime state the effects act on (a clock, the
  pending timeouts with the \<^verbatim>\<open>values\<close> their callback closes over, the pending microtasks,
  whether the last run of the second effect returned its cleanup), and what the hook did to
  its collaborators: the calls of \<^verbatim>\<open>adapter.setSearchParams\<close>, of \<^verbatim>\<open>reset\<close> and of
  \<^verbatim>\<open>console.warn\<close>, oldest first, and the errors that a timeout callback let escape.
\<close>

record 'n hook =
  firstRender :: bool
  timeoutRef :: "nat option"
  lastUrlParamsRef :: string
  isUpdatingFromUrlRef :: bool
  now :: nat
  timers :: "(nat \<times> nat \<times> 'n props) list"
  nextTimer :: nat
  microtasks :: nat
  hasCleanup :: bool
  setSearchParams_calls :: "params list"
  reset_calls :: "'n object list"
  console :: "diagnostic list"
  uncaught :: "js_error list"

definition mount :: "'n hook" where
  "mount = \<lparr> firstRender = True, timeoutRef = None, lastUrlParamsRef = '''',
             isUpdatingFromUrlRef = False, now = 0, timers = [], nextTimer = 1,
             microtasks = 0, hasCleanup = False, setSearchParams_calls = [],
             reset_calls = [], console = [], uncaught = [] \<rparr>"

subsection \<open>Hydration: the first effect (lines 210 to 253)\<close>

definition restore_step ::
  "'n platform \<Rightarrow> options \<Rightarrow> 'n object \<Rightarrow> string \<times> string \<Rightarrow> 'n object" where
  "restore_step p opts restoredValues kv =
     (case kv of (key, value) \<Rightarrow>
        if key \<in> set (excludeFields opts) then restoredValues
        else if value \<noteq> '''' then obj_assign restoredValues key (safeJsonParse p value)
        else restoredValues)"

definition restoredValues :: "'n platform \<Rightarrow> options \<Rightarrow> params \<Rightarrow> 'n object" where
  "restoredValues p opts ps = foldl (restore_step p opts) empty_object_literal ps"

text \<open>
  The part of the effect after the early return: lines 218 to 252.
  \<^verbatim>\<open>Object.keys(restoredValues)\<close> is the list of the own keys.
\<close>

definition hydrate :: "'n platform \<Rightarrow> options \<Rightarrow> params \<Rightarrow> 'n hook \<Rightarrow> 'n hook" where
  "hydrate p opts searchParams h =
     (let h1 = h\<lparr>lastUrlParamsRef := searchParamsToString p searchParams\<rparr>;
          restored = restoredValues p opts searchParams;
          h2 = (if length (map fst (own restored)) > 0
                then h1\<lparr>isUpdatingFromUrlRef := True,
                        reset_calls := reset_calls h1 @ [restored],
                        microtasks := Suc (microtasks h1)\<rparr>
                else if firstRender h1 then h1\<lparr>firstRender := False\<rparr>
                else h1)
      in if firstRender h2 then h2\<lparr>firstRender := False\<rparr> else h2)"

definition hydration_effect :: "'n platform \<Rightarrow> options \<Rightarrow> params \<Rightarrow> 'n hook \<Rightarrow> 'n hook" where
  "hydration_effect p opts searchParams h =
     (let currentUrlParams = searchParamsToString p searchParams
      in if \<not> firstRender h \<and> currentUrlParams = lastUrlParamsRef h then h
         else hydrate p opts searchParams h)"

text \<open>The microtask queued at line 242.\<close>

definition run_microtask :: "'n hook \<Rightarrow> 'n hook" where
  "run_microtask h =
     (if microtasks h = 0 then h
      else h\<lparr>isUpdatingFromUrlRef := False, microtasks := microtasks h - 1\<rparr>)"

subsection \<open>Publication: the timeout callback (lines 268 to 315)\<close>

text \<open>
  The loop of lines 278 to 299 over \<^verbatim>\<open>Object.entries(values || {})\<close>, whose keys are
  distinct. It carries the working copy and the diagnostics sent so far. When
  \<^verbatim>\<open>safeSerialize\<close> throws, nothing catches it: the loop stops there, and the result
  holds the error with the working copy and the diagnostics as they were.
\<close>

fun publish_loop ::
  "'n platform \<Rightarrow> options \<Rightarrow> params \<times> diagnostic list \<Rightarrow> 'n props
     \<Rightarrow> js_error option \<times> params \<times> diagnostic list" where
  "publish_loop p opts (newParams, out) [] = (None, newParams, out)"
| "publish_loop p opts (newParams, out) ((key, value) # rest) =
     (if key \<in> set (excludeFields opts) then publish_loop p opts (newParams, out) rest
      else
        let out1 = out @ warnIfSensitiveField p opts key
        in if value = JUndefined \<or> value = JNull \<or> value = JStr ''''
           then publish_loop p opts (params_delete key newParams, out1) rest
           else (case safeSerialize p value of
                   Inl e \<Rightarrow> (Some e, newParams, out1)
                 | Inr (Some stringValue, out2) \<Rightarrow>
                     if stringValue \<noteq> ''''
                     then publish_loop p opts (params_set key stringValue newParams, out1 @ out2) rest
                     else publish_loop p opts (params_delete key newParams, out1 @ out2) rest
                 | Inr (None, out2) \<Rightarrow>
                     publish_loop p opts (params_delete key newParams, out1 @ out2) rest))"

text \<open>Lines 270 to 299: the clone, the deletion of the excluded names, the loop.\<close>

definition working_copy ::
  "'n platform \<Rightarrow> options \<Rightarrow> params \<Rightarrow> 'n props
     \<Rightarrow> js_error option \<times> params \<times> diagnostic list" where
  "working_copy p opts searchParams values =
     (let newParams = foldl (\<lambda>ps field. params_delete field ps) searchParams (excludeFields opts)
      in publish_loop p opts (newParams, []) values)"

text \<open>The working copy as far as it was built, and the error that stopped the loop, if any.\<close>

definition newParams_of :: "'n platform \<Rightarrow> options \<Rightarrow> params \<Rightarrow> 'n props \<Rightarrow> params" where
  "newParams_of p opts searchParams values = fst (snd (working_copy p opts searchParams values))"

definition thrown_by :: "'n platform \<Rightarrow> options \<Rightarrow> params \<Rightarrow> 'n props \<Rightarrow> js_error option" where
  "thrown_by p opts searchParams values = fst (working_copy p opts searchParams values)"

definition publish :: "'n platform \<Rightarrow> options \<Rightarrow> params \<Rightarrow> 'n props \<Rightarrow> 'n hook \<Rightarrow> 'n hook" where
  "publish p opts searchParams values h =
     (case working_copy p opts searchParams values of
        (Some e, newParams, out) \<Rightarrow> h\<lparr>console := console h @ out, uncaught := uncaught h @ [e]\<rparr>
      | (None, newParams, out) \<Rightarrow>
          let urlString = URLSearchParams_toString p newParams;
              out1 = out @ (if length urlString > maxUrlLength opts
                            then [UrlTooLong (length urlString) (maxUrlLength opts)] else []);
              h1 = h\<lparr>console := console h @ out1\<rparr>;
              newUrlString = searchParamsToString p newParams
          in if newUrlString \<noteq> lastUrlParamsRef h1
             then h1\<lparr>lastUrlParamsRef := newUrlString,
                     setSearchParams_calls := setSearchParams_calls h1 @ [newParams]\<rparr>
             else h1)"

subsection \<open>Publication: the second effect (lines 256 to 323) and the timers\<close>

definition clearTimeout :: "nat \<Rightarrow> 'n hook \<Rightarrow> 'n hook" where
  "clearTimeout t h = h\<lparr>timers := filter (\<lambda>x. fst x \<noteq> t) (timers h)\<rparr>"

text \<open>\<^verbatim>\<open>if (timeoutRef.current) clearTimeout(timeoutRef.current)\<close>; a timer handle is truthy.\<close>

definition clear_pending :: "'n hook \<Rightarrow> 'n hook" where
  "clear_pending h = (case timeoutRef h of None \<Rightarrow> h | Some t \<Rightarrow> clearTimeout t h)"

text \<open>The cleanup that the previous run of the effect returned, if it returned one.\<close>

definition run_cleanup :: "'n hook \<Rightarrow> 'n hook" where
  "run_cleanup h = (if hasCleanup h then (clear_pending h)\<lparr>hasCleanup := False\<rparr> else h)"

definition values_effect_body :: "options \<Rightarrow> 'n props \<Rightarrow> 'n hook \<Rightarrow> 'n hook" where
  "values_effect_body opts values h =
     (if isUpdatingFromUrlRef h \<or> firstRender h then h
      else let h1 = clear_pending h;
               t = nextTimer h1
           in h1\<lparr>timers := timers h1 @ [(t, now h1 + debounce opts, values)],
                 timeoutRef := Some t,
                 nextTimer := Suc t,
                 hasCleanup := True\<rparr>)"

text \<open>A change of \<^verbatim>\<open>values\<close> (or of another dependency): cleanup, then the body.\<close>

definition values_effect :: "options \<Rightarrow> 'n props \<Rightarrow> 'n hook \<Rightarrow> 'n hook" where
  "values_effect opts values h = values_effect_body opts values (run_cleanup h)"

definition unmount :: "'n hook \<Rightarrow> 'n hook" where
  "unmount h = run_cleanup h"

text \<open>
  Time passes: the clock moves by \<open>dt\<close> milliseconds and the timeouts that are due by then
  run, oldest first, each reading \<^verbatim>\<open>adapter.searchParams\<close> when it runs.
\<close>

fun fire_due ::
  "'n platform \<Rightarrow> options \<Rightarrow> params \<Rightarrow> (nat \<times> nat \<times> 'n props) list \<Rightarrow> 'n hook \<Rightarrow> 'n hook" where
  "fire_due p opts searchParams [] h = h"
| "fire_due p opts searchParams ((t, due, values) # ts) h =
     (if due \<le> now h
      then fire_due p opts searchParams ts
             (publish p opts searchParams values (clearTimeout t h))
      else fire_due p opts searchParams ts h)"

definition elapse :: "'n platform \<Rightarrow> options \<Rightarrow> params \<Rightarrow> nat \<Rightarrow> 'n hook \<Rightarrow> 'n hook" where
  "elapse p opts searchParams dt h =
     (let h1 = h\<lparr>now := now h + dt\<rparr> in fire_due p opts searchParams (timers h1) h1)"

section \<open>An excerpt of the platform\<close>

text \<open>
  \<^verbatim>\<open>URLSearchParams.prototype.toString\<close>: the \<^verbatim>\<open>application/x-www-form-urlencoded\<close>
  serializer over the bytes of the names and values. Letters, digits and \<^verbatim>\<open>*-._\<close> stay,
  a space becomes \<^verbatim>\<open>+\<close>, every other byte becomes \<^verbatim>\<open>%XX\<close>.
\<close>

definition hex_digit :: "nat \<Rightarrow> char" where
  "hex_digit d = ''0123456789ABCDEF'' ! d"

definition urlencode_byte :: "char \<Rightarrow> string" where
  "urlencode_byte c =
     (let n = (of_char c :: nat)
      in if (48 \<le> n \<and> n \<le> 57) \<or> (65 \<le> n \<and> n \<le> 90) \<or> (97 \<le> n \<and> n \<le> 122)
            \<or> n = 42 \<or> n = 45 \<or> n = 46 \<or> n = 95
         then [c]
         else if n = 32 then ''+''
         else [CHR ''%'', hex_digit (n div 16), hex_digit (n mod 16)])"

definition urlencode :: "string \<Rightarrow> string" where
  "urlencode s = concat (map urlencode_byte s)"

fun urlencoded_serialize :: "(string \<times> string) list \<Rightarrow> string" where
  "urlencoded_serialize [] = []"
| "urlencoded_serialize [(k, v)] = urlencode k @ ''='' @ urlencode v"
| "urlencoded_serialize ((k, v) # kv # rest) =
     urlencode k @ ''='' @ urlencode v @ ''&'' @ urlencoded_serialize (kv # rest)"

text \<open>
  \<^verbatim>\<open>String.prototype.toLowerCase\<close> on a string of ASCII characters: the letters A to Z
  are mapped, the other characters kept. On other strings the excerpt says nothing.
\<close>

definition ascii_toLowerCase :: "string \<Rightarrow> string" where
  "ascii_toLowerCase s =
     the (if list_all (\<lambda>c. (of_char c :: nat) < 128) s
          then Some (map (\<lambda>c. case map_of (zip ''ABCDEFGHIJKLMNOPQRSTUVWXYZ''
                                                  ''abcdefghijklmnopqrstuvwxyz'') c of
                                  Some l \<Rightarrow> l
                                | None \<Rightarrow> c) s)
          else None)"

text \<open>
  What \<^verbatim>\<open>JSON.parse\<close>, \<^verbatim>\<open>JSON.stringify\<close> and the number-to-string conversion return on the
  inputs of the examples below. Outside these tables the excerpt says nothing.
\<close>

definition JSON_parse_excerpt :: "(string \<times> (js_error + rat jsval)) list" where
  \<open>JSON_parse_excerpt =
     [(''true'', Inr (JBool True)),
      (''false'', Inr (JBool False)),
      (''30'', Inr (JNum 30)),
      (''99.99'', Inr (JNum (9999 / 100))),
      (''null'', Inr JNull),
      (''John'', Inl SyntaxError),
      (''Jane'', Inl SyntaxError),
      (''secret123'', Inl SyntaxError),
      (''{invalid json}'', Inl SyntaxError),
      (''["react","typescript"]'', Inr (JArr [JStr ''react'', JStr ''typescript''])),
      (''{"category":"tech"}'', Inr (JObj [(''category'', JStr ''tech'')])),
      (''{"__proto__":{"isAdmin":true},"normalKey":"value"}'',
         Inr (JObj [(''__proto__'', JObj [(''isAdmin'', JBool True)]),
                    (''normalKey'', JStr ''value'')])),
      (''{"name":"widget","prototype":"v2"}'',
         Inr (JObj [(''name'', JStr ''widget''), (''prototype'', JStr ''v2'')])),
      (''{"constructor":{"prototype":{"isAdmin":true}},"normalKey":{"prototype":"kept"}}'',
         Inr (JObj [(''constructor'', JObj [(''prototype'', JObj [(''isAdmin'', JBool True)])]),
                    (''normalKey'', JObj [(''prototype'', JStr ''kept'')])]))]\<close>

text \<open>
  \<^verbatim>\<open>JSON.stringify\<close> throws on a wrapped big integer, and returns \<^verbatim>\<open>undefined\<close> for an
  object whose \<^verbatim>\<open>toJSON\<close> method returns \<^verbatim>\<open>undefined\<close>.
\<close>

definition JSON_stringify_excerpt :: "(rat jsval \<times> (js_error + string option)) list" where
  \<open>JSON_stringify_excerpt =
     [(JArr [JStr ''react'', JStr ''typescript''], Inr (Some ''["react","typescript"]'')),
      (JObj [(''category'', JStr ''tech'')], Inr (Some ''{"category":"tech"}'')),
      (JObj [(''name'', JStr ''widget''), (''prototype'', JStr ''v2'')],
         Inr (Some ''{"name":"widget","prototype":"v2"}'')),
      (JArr [JOther ''[object BigInt]'' (Inr ''1'')], Inl TypeError),
      (JObj [(''n'', JOther ''[object BigInt]'' (Inr ''1''))], Inl TypeError),
      (JOther ''[object Object]'' (Inr ''[object Object]''), Inr None)]\<close>

definition Number_toString_excerpt :: "(rat \<times> string) list" where
  "Number_toString_excerpt = [(30, ''30''), (9999 / 100, ''99.99'')]"

definition excerpt :: "rat platform" where
  "excerpt =
     \<lparr> JSON_parse = (\<lambda>s. the (map_of JSON_parse_excerpt s)),
       JSON_stringify = (\<lambda>v. the (map_of JSON_stringify_excerpt v)),
       Number_toString = (\<lambda>n. the (map_of Number_toString_excerpt n)),
       String_toLowerCase = ascii_toLowerCase,
       URLSearchParams_toString = urlencoded_serialize \<rparr>"

section \<open>Notions for the properties\<close>

text \<open>The denylist of lines 120 to 122.\<close>

definition denylisted :: "string \<Rightarrow> bool" where
  "denylisted key = (key = ''__proto__'' \<or> key = ''constructor'' \<or> key = ''prototype'')"

text \<open>
  The own properties of an object as the platform keeps them: distinct keys, in enumeration
  order (no key is enumerated before one that stands earlier in the list).
\<close>

definition enum_ordered :: "'n props \<Rightarrow> bool" where
  "enum_ordered ps = sorted_wrt (\<lambda>x y. \<not> precedes (fst y) (fst x)) ps"

definition own_properties :: "'n props \<Rightarrow> bool" where
  "own_properties ps = (distinct (map fst ps) \<and> enum_ordered ps)"

text \<open>The options of the examples: the defaults of the hook and one excluded field.\<close>

definition opts0 :: options where
  "opts0 = \<lparr> debounce = 500, maxUrlLength = 2000, excludeFields = [''password''],
             NODE_ENV = ''production'' \<rparr>"

text \<open>The pairs of one name in a query-parameter mapping, in order.\<close>

definition of_key :: "string \<Rightarrow> params \<Rightarrow> params" where
  "of_key k ps = filter (\<lambda>kv. fst kv = k) ps"

text \<open>
  What one round of the loop of lines 278 to 299 does to the working copy when it does not
  throw, and whether it throws.
\<close>

definition entry_throws :: "'n platform \<Rightarrow> options \<Rightarrow> string \<times> 'n jsval \<Rightarrow> bool" where
  "entry_throws p opts kv =
     (fst kv \<notin> set (excludeFields opts) \<and> snd kv \<noteq> JUndefined \<and> snd kv \<noteq> JNull
      \<and> snd kv \<noteq> JStr '''' \<and> isl (safeSerialize p (snd kv)))"

definition entry_step :: "'n platform \<Rightarrow> options \<Rightarrow> params \<Rightarrow> string \<times> 'n jsval \<Rightarrow> params" where
  "entry_step p opts ps kv = fst (snd (publish_loop p opts (ps, []) [kv]))"


text \<open>Every pending timeout is the one that \<^verbatim>\<open>timeoutRef\<close> holds.\<close>

definition one_timer :: "'n hook \<Rightarrow> bool" where
  "one_timer h = list_all (\<lambda>t. timeoutRef h = Some (fst t)) (timers h)"

text \<open>
  What can happen to a mounted hook: the first effect runs on a snapshot of the query
  string, a queued microtask runs, the second effect runs on the form values, time passes,
  the hook is unmounted.
\<close>

datatype 'n event =
    UrlObserved params
  | Microtask
  | ValuesChanged "'n props"
  | Elapsed nat params
  | Unmounted

fun step :: "'n platform \<Rightarrow> options \<Rightarrow> 'n hook \<Rightarrow> 'n event \<Rightarrow> 'n hook" where
  "step p opts h (UrlObserved searchParams) = hydration_effect p opts searchParams h"
| "step p opts h Microtask = run_microtask h"
| "step p opts h (ValuesChanged values) = values_effect opts values h"
| "step p opts h (Elapsed dt searchParams) = elapse p opts searchParams dt h"
| "step p opts h Unmounted = unmount h"

definition run :: "'n platform \<Rightarrow> options \<Rightarrow> 'n event list \<Rightarrow> 'n hook" where
  "run p opts es = foldl (step p opts) mount es"

text \<open>At most one timeout is pending, and \<^verbatim>\<open>timeoutRef\<close> holds it.\<close>

definition pending_ok :: "'n hook \<Rightarrow> bool" where
  "pending_ok h = (one_timer h \<and> length (timers h) \<le> 1)"

text \<open>
  A store that holds \<^verbatim>\<open>Object.prototype\<close>, with no enumerable property, and at address 1
  an object that \<^verbatim>\<open>JSON.parse\<close> has just made.
\<close>

definition store_with :: "'n props \<Rightarrow> 'n store" where
  "store_with obj =
     \<lparr> cells = Map.empty(Object_prototype \<mapsto> \<lparr> proto = NullPrototype, own = [] \<rparr>,
                          1 \<mapsto> \<lparr> proto = ObjectPrototype, own = obj \<rparr>),
       next_addr = 2 \<rparr>"

section \<open>Properties of the codec\<close>

lemmas excerpt_simps = excerpt_def JSON_parse_excerpt_def JSON_stringify_excerpt_def
  Number_toString_excerpt_def

subsection \<open>Own properties\<close>

lemma enum_ordered_append:
  "enum_ordered (xs @ ys) \<longleftrightarrow>
     enum_ordered xs \<and> enum_ordered ys
     \<and> (\<forall>x\<in>set xs. \<forall>y\<in>set ys. \<not> precedes (fst y) (fst x))"
  by (simp add: enum_ordered_def sorted_wrt_append)

lemma enum_ordered_Cons:
  "enum_ordered (x # xs) \<longleftrightarrow> (\<forall>y\<in>set xs. \<not> precedes (fst y) (fst x)) \<and> enum_ordered xs"
  by (simp add: enum_ordered_def)

lemma enum_ordered_Nil: "enum_ordered []"
  by (simp add: enum_ordered_def)

lemma obj_insert_last:
  "\<forall>x\<in>set ps. \<not> precedes key (fst x) \<Longrightarrow> obj_insert ps key v = ps @ [(key, v)]"
  by (induction ps) auto

lemma obj_update_fresh:
  "\<not> hasOwnProperty ps key \<Longrightarrow> enum_ordered (ps @ [(key, v)])
   \<Longrightarrow> obj_update ps key v = ps @ [(key, v)]"
  by (simp add: obj_update_def enum_ordered_append obj_insert_last)

lemma map_of_obj_insert:
  "key \<notin> fst ` set ps \<Longrightarrow> map_of (obj_insert ps key v) = (map_of ps)(key \<mapsto> v)"
  by (induction ps) (auto simp: fun_upd_twist)

lemma map_of_replace_at:
  "map_of (map (\<lambda>kw. if fst kw = key then (key, v) else kw) ps) k
     = (if k = key then (if key \<in> fst ` set ps then Some v else None) else map_of ps k)"
  by (induction ps) force+

lemma map_of_replace:
  "key \<in> fst ` set ps \<Longrightarrow>
   map_of (map (\<lambda>kw. if fst kw = key then (key, v) else kw) ps) = (map_of ps)(key \<mapsto> v)"
  by (rule ext) (simp add: map_of_replace_at)

lemma map_of_obj_update: "map_of (obj_update ps key v) = (map_of ps)(key \<mapsto> v)"
  by (simp add: obj_update_def hasOwnProperty_def map_of_obj_insert map_of_replace)

lemma keys_obj_update: "fst ` set (obj_update ps key v) = insert key (fst ` set ps)"
  using map_of_obj_update [of ps key v, THEN arg_cong, of dom]
  by (simp add: dom_map_of_conv_image_fst)

lemma obj_get_member: "distinct (map fst obj) \<Longrightarrow> (k, v) \<in> set obj \<Longrightarrow> obj_get obj k = v"
  by (simp add: obj_get_def)

lemma obj_assign_data:
  "key \<noteq> ''__proto__'' \<Longrightarrow> obj_assign target key v = target\<lparr>own := obj_update (own target) key v\<rparr>"
  by (simp add: obj_assign_def)

lemma proto_obj_assign_data: "key \<noteq> ''__proto__'' \<Longrightarrow> proto (obj_assign target key v) = proto target"
  by (simp add: obj_assign_data)

subsection \<open>The sanitizing loop keeps the other properties, in order\<close>

lemma sanitize_step_absent:
  "\<not> hasOwnProperty obj key \<Longrightarrow> sanitize_step obj acc key = acc"
  by (simp add: sanitize_step_def)

lemma sanitize_loop:
  "distinct (map fst obj) \<Longrightarrow> set xs \<subseteq> set obj \<Longrightarrow> distinct (map fst (own acc @ xs))
   \<Longrightarrow> enum_ordered (own acc @ xs)
   \<Longrightarrow> foldl (sanitize_step obj) acc (map fst xs)
       = acc\<lparr>own := own acc @ filter (\<lambda>kv. \<not> denylisted (fst kv)) xs\<rparr>"
proof (induction xs arbitrary: acc)
  case Nil
  then show ?case by simp
next
  case (Cons x xs)
  obtain k v where x: "x = (k, v)" by (cases x)
  have mem: "(k, v) \<in> set obj" using Cons.prems(2) x by simp
  have own: "hasOwnProperty obj k"
    using mem by (force simp: hasOwnProperty_def)
  have get: "obj_get obj k = v"
    using Cons.prems(1) mem by (rule obj_get_member)
  have fresh: "\<not> hasOwnProperty (own acc) k"
    using Cons.prems(3) x by (auto simp: hasOwnProperty_def)
  show ?case
  proof (cases "denylisted k")
    case True
    then have step: "sanitize_step obj acc k = acc"
      by (auto simp: sanitize_step_def denylisted_def)
    have "foldl (sanitize_step obj) acc (map fst xs)
            = acc\<lparr>own := own acc @ filter (\<lambda>kv. \<not> denylisted (fst kv)) xs\<rparr>"
      using Cons.prems x by (intro Cons.IH) (auto simp: enum_ordered_append enum_ordered_Cons)
    then show ?thesis using True x step by simp
  next
    case False
    have "enum_ordered (own acc @ [(k, v)])"
      using Cons.prems(4) x by (auto simp: enum_ordered_append enum_ordered_Cons enum_ordered_Nil)
    then have step: "sanitize_step obj acc k = acc\<lparr>own := own acc @ [(k, v)]\<rparr>"
      using False own get fresh
      by (simp add: sanitize_step_def denylisted_def obj_assign_data obj_update_fresh)
    have "foldl (sanitize_step obj) (acc\<lparr>own := own acc @ [(k, v)]\<rparr>) (map fst xs)
            = (acc\<lparr>own := own acc @ [(k, v)]\<rparr>)
                \<lparr>own := own (acc\<lparr>own := own acc @ [(k, v)]\<rparr>)
                          @ filter (\<lambda>kv. \<not> denylisted (fst kv)) xs\<rparr>"
      using Cons.prems x by (intro Cons.IH) auto
    then show ?thesis using False x step by simp
  qed
qed

lemma sanitized_object_eq:
  "own_properties obj \<Longrightarrow>
   sanitized_object obj
     = \<lparr> proto = ObjectPrototype, own = filter (\<lambda>kv. \<not> denylisted (fst kv)) obj \<rparr>"
  unfolding sanitized_object_def own_properties_def
  using sanitize_loop [of obj obj empty_object_literal]
  by (simp add: empty_object_literal_def)

lemma sanitize_filter:
  "own_properties obj \<Longrightarrow> sanitize obj = filter (\<lambda>kv. \<not> denylisted (fst kv)) obj"
  by (simp add: sanitize_def sanitized_object_eq)

subsection \<open>The branches of the codec\<close>

lemma safeJsonParse_Inl: "JSON_parse p raw = Inl e \<Longrightarrow> safeJsonParse p raw = JStr raw"
  by (simp add: safeJsonParse_def)

lemma safeJsonParse_Inr:
  "JSON_parse p raw = Inr parsed \<Longrightarrow>
   safeJsonParse p raw =
     (case parsed of
        JObj obj \<Rightarrow> if hasDangerousKeys obj then JObj (sanitize obj) else parsed
      | JOther tag str \<Rightarrow> if tag = ''[object Object]'' then parsed else JStr raw
      | _ \<Rightarrow> parsed)"
  by (cases parsed) (simp_all add: safeJsonParse_def)

lemma safeSerialize_cases:
  "safeSerialize p JNull = Inr (Some '''', [])"
  "safeSerialize p JUndefined = Inr (Some ''undefined'', [])"
  "safeSerialize p (JBool b) = Inr (Some (if b then ''true'' else ''false''), [])"
  "safeSerialize p (JNum n) = Inr (Some (Number_toString p n), [])"
  "safeSerialize p (JStr s) = Inr (Some s, [])"
  "safeSerialize p (JArr xs) =
     (case JSON_stringify p (JArr xs) of Inr s \<Rightarrow> Inr (s, [])
      | Inl e \<Rightarrow> Inr (Some '''', [SerializeArrayFailed e]))"
  "safeSerialize p (JObj ps) =
     (case JSON_stringify p (JObj ps) of Inr s \<Rightarrow> Inr (s, [])
      | Inl e \<Rightarrow> Inr (Some '''', [SerializeObjectFailed e]))"
  "safeSerialize p (JOther tag str) =
     (if tag = ''[object Object]''
      then (case JSON_stringify p (JOther tag str) of Inr s \<Rightarrow> Inr (s, [])
            | Inl e \<Rightarrow> Inr (Some '''', [SerializeObjectFailed e]))
      else (case str of Inl e \<Rightarrow> Inl e | Inr s \<Rightarrow> Inr (Some s, [])))"
  by (simp_all add: safeSerialize_def)

text \<open>The function throws exactly on an object of another class whose \<^verbatim>\<open>String\<close> throws.\<close>

lemma safeSerialize_throws_iff:
  "safeSerialize p v = Inl e \<longleftrightarrow> (\<exists>tag. tag \<noteq> ''[object Object]'' \<and> v = JOther tag (Inl e))"
  by (cases v) (auto simp: safeSerialize_cases split: sum.splits)

text \<open>
  Claim C4. \<^verbatim>\<open>safeJsonParse\<close> returns a value on every input string and never raises. When
  \<^verbatim>\<open>JSON.parse\<close> throws it returns the raw string unchanged; when the parse gives an object
  that is neither an array nor a plain object it returns the raw string too; on every
  other path it returns the parsed value, or its sanitized copy.
\<close>

theorem safeJsonParse_total:
  "(\<forall>e. JSON_parse p raw = Inl e \<longrightarrow> safeJsonParse p raw = JStr raw)
   \<and> (\<forall>tag str. JSON_parse p raw = Inr (JOther tag str) \<and> tag \<noteq> ''[object Object]''
         \<longrightarrow> safeJsonParse p raw = JStr raw)
   \<and> (safeJsonParse p raw = JStr raw
       \<or> (\<exists>parsed. JSON_parse p raw = Inr parsed
             \<and> (safeJsonParse p raw = parsed
                 \<or> (\<exists>obj. parsed = JObj obj \<and> safeJsonParse p raw = JObj (sanitize obj)))))"
proof (cases "JSON_parse p raw")
  case (Inl e)
  then show ?thesis by (simp add: safeJsonParse_Inl)
next
  case (Inr parsed)
  then show ?thesis
    by (cases parsed) (simp_all add: safeJsonParse_Inr)
qed

theorem safeJsonParse_total_witness:
  \<open>JSON_parse excerpt ''{invalid json}'' = Inl SyntaxError
   \<and> safeJsonParse excerpt ''{invalid json}'' = JStr ''{invalid json}''
   \<and> JSON_parse (excerpt\<lparr>JSON_parse := \<lambda>s. Inr (JOther ''[object Date]'' (Inr s))\<rparr>) ''2023-01-01''
       = Inr (JOther ''[object Date]'' (Inr ''2023-01-01''))
   \<and> ''[object Date]'' \<noteq> ''[object Object]''
   \<and> safeJsonParse (excerpt\<lparr>JSON_parse := \<lambda>s. Inr (JOther ''[object Date]'' (Inr s))\<rparr>) ''2023-01-01''
       = JStr ''2023-01-01''\<close>
proof -
  have a: "JSON_parse excerpt ''{invalid json}'' = Inl SyntaxError"
    by (simp add: excerpt_simps)
  show ?thesis
    using a safeJsonParse_total [of excerpt "''{invalid json}''"]
      safeJsonParse_total [of "excerpt\<lparr>JSON_parse := \<lambda>s. Inr (JOther ''[object Date]'' (Inr s))\<rparr>"
        "''2023-01-01''"]
    by simp
qed

text \<open>
  Claim C5 says that \<^verbatim>\<open>safeSerialize\<close> never raises and returns a string. The code does
  not keep to it. The two calls of \<^verbatim>\<open>String\<close> (lines 149 and 175) are outside every
  \<^verbatim>\<open>try\<close>, unlike the two calls of \<^verbatim>\<open>JSON.stringify\<close>: on a wrapped symbol, an object of
  another class whose conversion to a string throws, the error leaves \<^verbatim>\<open>safeSerialize\<close>
  and the timeout callback with it, and nothing is published, not even the fields that
  follow. And on an object whose \<^verbatim>\<open>toJSON\<close> gives \<^verbatim>\<open>undefined\<close> the function returns
  \<^verbatim>\<open>undefined\<close>, without a diagnostic.
\<close>

theorem safeSerialize_throws:
  "safeSerialize excerpt (JOther ''[object Symbol]'' (Inl TypeError)) = Inl TypeError
   \<and> safeSerialize excerpt (JOther ''[object Object]'' (Inr ''[object Object]'')) = Inr (None, [])
   \<and> uncaught (publish excerpt opts0 [] [(''id'', JOther ''[object Symbol]'' (Inl TypeError))] mount)
       = [TypeError]
   \<and> setSearchParams_calls
        (publish excerpt opts0 [] [(''id'', JOther ''[object Symbol]'' (Inl TypeError)),
                                   (''name'', JStr ''Jane'')] mount) = []"
proof -
  have "JSON_stringify excerpt (JOther ''[object Object]'' (Inr ''[object Object]'')) = Inr None"
    by (simp add: excerpt_simps)
  then show ?thesis
    by (simp add: safeSerialize_cases publish_def working_copy_def opts0_def
        warnIfSensitiveField_def mount_def)
qed

text \<open>
  Claim C3, as amended. For an array, and for a plain object with no own property named
  \<^verbatim>\<open>__proto__\<close>, \<^verbatim>\<open>constructor\<close> or \<^verbatim>\<open>prototype\<close> at its top level, that
  \<^verbatim>\<open>JSON.stringify\<close> serializes and \<^verbatim>\<open>JSON.parse\<close> reads back as the same value,
  encoding gives the serialization and decoding it gives the value back.
\<close>

theorem roundtrip_without_denylisted_keys:
  assumes "JSON_stringify p v = Inr (Some s)" and "JSON_parse p s = Inr v"
    and "(\<exists>xs. v = JArr xs)
         \<or> (\<exists>obj. v = JObj obj \<and> \<not> hasOwnProperty obj ''__proto__''
                \<and> \<not> hasOwnProperty obj ''constructor'' \<and> \<not> hasOwnProperty obj ''prototype'')"
  shows "safeSerialize p v = Inr (Some s, []) \<and> safeJsonParse p s = v"
  using assms by (auto simp: safeSerialize_cases safeJsonParse_Inr hasDangerousKeys_def)

theorem roundtrip_without_denylisted_keys_witness:
  \<open>JSON_stringify excerpt (JArr [JStr ''react'', JStr ''typescript''])
     = Inr (Some ''["react","typescript"]'')
   \<and> JSON_parse excerpt ''["react","typescript"]'' = Inr (JArr [JStr ''react'', JStr ''typescript''])
   \<and> safeSerialize excerpt (JArr [JStr ''react'', JStr ''typescript''])
       = Inr (Some ''["react","typescript"]'', [])
   \<and> safeJsonParse excerpt ''["react","typescript"]'' = JArr [JStr ''react'', JStr ''typescript'']
   \<and> JSON_stringify excerpt (JObj [(''category'', JStr ''tech'')]) = Inr (Some ''{"category":"tech"}'')
   \<and> JSON_parse excerpt ''{"category":"tech"}'' = Inr (JObj [(''category'', JStr ''tech'')])
   \<and> \<not> hasOwnProperty [(''category'', JStr ''tech'' :: rat jsval)] ''__proto__''
   \<and> \<not> hasOwnProperty [(''category'', JStr ''tech'' :: rat jsval)] ''constructor''
   \<and> \<not> hasOwnProperty [(''category'', JStr ''tech'' :: rat jsval)] ''prototype''
   \<and> safeSerialize excerpt (JObj [(''category'', JStr ''tech'')])
       = Inr (Some ''{"category":"tech"}'', [])
   \<and> safeJsonParse excerpt ''{"category":"tech"}'' = JObj [(''category'', JStr ''tech'')]\<close>
proof -
  have a: \<open>JSON_stringify excerpt (JArr [JStr ''react'', JStr ''typescript''])
             = Inr (Some ''["react","typescript"]'')\<close>
    and b: \<open>JSON_parse excerpt ''["react","typescript"]''
             = Inr (JArr [JStr ''react'', JStr ''typescript''])\<close>
    and c: \<open>JSON_stringify excerpt (JObj [(''category'', JStr ''tech'')])
             = Inr (Some ''{"category":"tech"}'')\<close>
    and d: \<open>JSON_parse excerpt ''{"category":"tech"}'' = Inr (JObj [(''category'', JStr ''tech'')])\<close>
    by (simp_all add: excerpt_simps)
  show ?thesis
    using a b c d
      roundtrip_without_denylisted_keys [OF a b]
      roundtrip_without_denylisted_keys [OF c d]
    by (simp add: hasOwnProperty_def)
qed

lemmas sanitize_eval = sanitize_def sanitized_object_def sanitize_step_def obj_assign_def
  obj_update_def obj_get_def hasOwnProperty_def empty_object_literal_def precedes_def
  array_index_def is_digit_def

text \<open>
  The claim as stated fails on a plain object with a top-level denylisted key: the
  JSON-representable value \<^verbatim>\<open>{"name":"widget","prototype":"v2"}\<close> comes back without
  its \<^verbatim>\<open>prototype\<close> property.
\<close>

theorem roundtrip_counterexample:
  \<open>JSON_stringify excerpt (JObj [(''name'', JStr ''widget''), (''prototype'', JStr ''v2'')])
     = Inr (Some ''{"name":"widget","prototype":"v2"}'')
   \<and> JSON_parse excerpt ''{"name":"widget","prototype":"v2"}''
     = Inr (JObj [(''name'', JStr ''widget''), (''prototype'', JStr ''v2'')])
   \<and> safeSerialize excerpt (JObj [(''name'', JStr ''widget''), (''prototype'', JStr ''v2'')])
     = Inr (Some ''{"name":"widget","prototype":"v2"}'', [])
   \<and> safeJsonParse excerpt ''{"name":"widget","prototype":"v2"}''
     = JObj [(''name'', JStr ''widget'')]
   \<and> safeJsonParse excerpt ''{"name":"widget","prototype":"v2"}''
     \<noteq> JObj [(''name'', JStr ''widget''), (''prototype'', JStr ''v2'')]\<close>
proof -
  have a: \<open>JSON_stringify excerpt (JObj [(''name'', JStr ''widget''), (''prototype'', JStr ''v2'')])
     = Inr (Some ''{"name":"widget","prototype":"v2"}'')\<close>
    and b: \<open>JSON_parse excerpt ''{"name":"widget","prototype":"v2"}''
     = Inr (JObj [(''name'', JStr ''widget''), (''prototype'', JStr ''v2'')])\<close>
    by (simp_all add: excerpt_simps)
  have enc: \<open>safeSerialize excerpt (JObj [(''name'', JStr ''widget''), (''prototype'', JStr ''v2'')])
     = Inr (Some ''{"name":"widget","prototype":"v2"}'', [])\<close>
    using a by (simp add: safeSerialize_cases)
  have dec: \<open>safeJsonParse excerpt ''{"name":"widget","prototype":"v2"}''
     = JObj [(''name'', JStr ''widget'')]\<close>
    using b by (simp add: safeJsonParse_Inr hasDangerousKeys_def sanitize_eval)
  show ?thesis
    using a b enc unfolding dec by simp
qed

subsection \<open>The sweep on a store\<close>

lemma sweep_step_eq:
  assumes "a \<noteq> b" and "cells s a = Some A" and "cells s b = Some acc"
  shows "sweep_step a b s key = s\<lparr>cells := (cells s)(b \<mapsto> sanitize_step (own A) acc key)\<rparr>"
proof (cases "hasOwnProperty (own A) key \<and> key \<noteq> ''__proto__'' \<and> key \<noteq> ''constructor''
              \<and> key \<noteq> ''prototype''")
  case True
  then show ?thesis
    using assms
    by (simp add: sweep_step_def own_at_def store_get_def store_assign_def sanitize_step_def)
next
  case False
  have "s\<lparr>cells := (cells s)(b \<mapsto> acc)\<rparr> = s"
    using assms(3) by (simp add: fun_upd_idem)
  then show ?thesis
    using False assms
    by (auto simp: sweep_step_def own_at_def sanitize_step_def)
qed

lemma sweep_loop:
  assumes "a \<noteq> b" and "cells s a = Some A" and "cells s b = Some acc"
  shows "foldl (sweep_step a b) s ks
           = s\<lparr>cells := (cells s)(b \<mapsto> foldl (sanitize_step (own A)) acc ks)\<rparr>"
  using assms
proof (induction ks arbitrary: s acc)
  case Nil
  then show ?case by (simp add: fun_upd_idem)
next
  case (Cons k ks)
  let ?s = "s\<lparr>cells := (cells s)(b \<mapsto> sanitize_step (own A) acc k)\<rparr>"
  have step: "sweep_step a b s k = ?s"
    using Cons.prems by (rule sweep_step_eq)
  have rest: "foldl (sweep_step a b) ?s ks
          = ?s\<lparr>cells := (cells ?s)(b \<mapsto> foldl (sanitize_step (own A)) (sanitize_step (own A) acc k) ks)\<rparr>"
    using Cons.prems by (intro Cons.IH) simp_all
  have twice: "?s\<lparr>cells := (cells ?s)(b \<mapsto> X)\<rparr> = s\<lparr>cells := (cells s)(b \<mapsto> X)\<rparr>" for X
    by simp
  show ?case
    unfolding foldl_Cons step rest twice ..
qed

lemma sanitize_inherited:
  "\<forall>k\<in>set ks. \<not> hasOwnProperty obj k \<Longrightarrow> foldl (sanitize_step obj) acc ks = acc"
  by (induction ks) (simp_all add: sanitize_step_absent)

lemma sweep_eq:
  assumes "cells s a = Some A" and "cells s (next_addr s) = None"
  shows "sweep s a =
           (next_addr s,
            s\<lparr>cells := (cells s)(next_addr s \<mapsto> sanitized_object (own A)),
              next_addr := Suc (next_addr s)\<rparr>)"
proof -
  let ?b = "next_addr s"
  let ?s1 = "s\<lparr>cells := (cells s)(?b \<mapsto> empty_object_literal), next_addr := Suc ?b\<rparr>"
  have ab: "a \<noteq> ?b" using assms by auto
  have a1: "cells ?s1 a = Some A" using assms(1) ab by simp
  have b1: "cells ?s1 ?b = Some empty_object_literal" by simp
  have keys: "for_in_keys ?s1 a
                = map fst (own A)
                  @ filter (\<lambda>k. \<not> hasOwnProperty (own A) k) (map fst (own_at ?s1 Object_prototype))"
    using a1 by (simp add: for_in_keys_def own_at_def)
  have "foldl (sanitize_step (own A)) empty_object_literal (for_in_keys ?s1 a)
          = sanitized_object (own A)"
    unfolding keys foldl_append sanitized_object_def
    by (rule sanitize_inherited) simp
  then have "foldl (sweep_step a ?b) ?s1 (for_in_keys ?s1 a)
               = ?s1\<lparr>cells := (cells ?s1)(?b \<mapsto> sanitized_object (own A))\<rparr>"
    using sweep_loop [OF ab a1 b1, of "for_in_keys ?s1 a"] by simp
  then show ?thesis
    by (simp add: sweep_def alloc_def)
qed

text \<open>
  Claim C2, as amended. When the raw string parses to a plain object that has an own
  property named \<^verbatim>\<open>__proto__\<close>, \<^verbatim>\<open>constructor\<close> or \<^verbatim>\<open>prototype\<close>, \<^verbatim>\<open>safeJsonParse\<close>
  returns an object holding exactly the other own properties of the parsed object, in
  their order and with their parsed values, nested objects as they were parsed: only the
  top level is swept. On a store, the result is a new object, at an address that held
  nothing, made by the literal \<^verbatim>\<open>{}\<close> and so with \<^verbatim>\<open>Object.prototype\<close> as its prototype;
  the parsed object, \<^verbatim>\<open>Object.prototype\<close> and every other object of the store are after
  the call what they were before.
\<close>

theorem sweep_copies_into_new_object:
  assumes "JSON_parse p raw = Inr (JObj obj)"
    and "own_properties obj"
    and "hasOwnProperty obj ''__proto__'' \<or> hasOwnProperty obj ''constructor''
         \<or> hasOwnProperty obj ''prototype''"
    and "cells s a = Some \<lparr> proto = ObjectPrototype, own = obj \<rparr>"
    and "cells s Object_prototype = Some global"
    and "cells s (next_addr s) = None"
  shows "safeJsonParse p raw =
           JObj (filter (\<lambda>kv. fst kv \<noteq> ''__proto__'' \<and> fst kv \<noteq> ''constructor''
                             \<and> fst kv \<noteq> ''prototype'') obj)
         \<and> fst (sweep s a) = next_addr s
         \<and> cells (snd (sweep s a)) (next_addr s) =
             Some \<lparr> proto = ObjectPrototype,
                    own = filter (\<lambda>kv. fst kv \<noteq> ''__proto__'' \<and> fst kv \<noteq> ''constructor''
                                      \<and> fst kv \<noteq> ''prototype'') obj \<rparr>
         \<and> cells (snd (sweep s a)) a = Some \<lparr> proto = ObjectPrototype, own = obj \<rparr>
         \<and> cells (snd (sweep s a)) Object_prototype = Some global
         \<and> (\<forall>x. x \<noteq> next_addr s \<longrightarrow> cells (snd (sweep s a)) x = cells s x)"
proof -
  have "hasDangerousKeys obj"
    using assms(3) by (simp add: hasDangerousKeys_def)
  then have "safeJsonParse p raw = JObj (sanitize obj)"
    using assms(1) by (simp add: safeJsonParse_Inr)
  then have val: "safeJsonParse p raw =
           JObj (filter (\<lambda>kv. fst kv \<noteq> ''__proto__'' \<and> fst kv \<noteq> ''constructor''
                             \<and> fst kv \<noteq> ''prototype'') obj)"
    using assms(2) by (simp add: sanitize_filter denylisted_def)
  have a: "a \<noteq> next_addr s" and g: "Object_prototype \<noteq> next_addr s"
    using assms(4,5,6) by auto
  show ?thesis
    using val a g assms(4,5)
    by (simp add: sweep_eq [OF assms(4,6)] sanitized_object_eq [OF assms(2)] denylisted_def)
qed

lemmas own_properties_eval = own_properties_def enum_ordered_def precedes_def array_index_def
  is_digit_def

theorem sweep_copies_into_new_object_witness:
  \<open>JSON_parse excerpt ''{"__proto__":{"isAdmin":true},"normalKey":"value"}''
     = Inr (JObj [(''__proto__'', JObj [(''isAdmin'', JBool True)]), (''normalKey'', JStr ''value'')])
   \<and> own_properties [(''__proto__'', JObj [(''isAdmin'', JBool True)]),
                      (''normalKey'', JStr ''value'' :: rat jsval)]
   \<and> hasOwnProperty [(''__proto__'', JObj [(''isAdmin'', JBool True)]),
                      (''normalKey'', JStr ''value'' :: rat jsval)] ''__proto__''
   \<and> safeJsonParse excerpt ''{"__proto__":{"isAdmin":true},"normalKey":"value"}''
     = JObj [(''normalKey'', JStr ''value'')]
   \<and> fst (sweep (store_with [(''__proto__'', JObj [(''isAdmin'', JBool True)]),
                               (''normalKey'', JStr ''value'' :: rat jsval)]) 1) = 2
   \<and> cells (snd (sweep (store_with [(''__proto__'', JObj [(''isAdmin'', JBool True)]),
                                     (''normalKey'', JStr ''value'' :: rat jsval)]) 1)) 2
     = Some \<lparr> proto = ObjectPrototype, own = [(''normalKey'', JStr ''value'')] \<rparr>
   \<and> cells (snd (sweep (store_with [(''__proto__'', JObj [(''isAdmin'', JBool True)]),
                                     (''normalKey'', JStr ''value'' :: rat jsval)]) 1)) 1
     = Some \<lparr> proto = ObjectPrototype,
              own = [(''__proto__'', JObj [(''isAdmin'', JBool True)]),
                     (''normalKey'', JStr ''value'')] \<rparr>
   \<and> cells (snd (sweep (store_with [(''__proto__'', JObj [(''isAdmin'', JBool True)]),
                                     (''normalKey'', JStr ''value'' :: rat jsval)]) 1))
        Object_prototype
     = Some \<lparr> proto = NullPrototype, own = [] \<rparr>\<close>
proof -
  let ?obj = "[(''__proto__'', JObj [(''isAdmin'', JBool True)]),
               (''normalKey'', JStr ''value'' :: rat jsval)]"
  have a: \<open>JSON_parse excerpt ''{"__proto__":{"isAdmin":true},"normalKey":"value"}''
             = Inr (JObj ?obj)\<close>
    by (simp add: excerpt_simps)
  have b: "own_properties ?obj"
    by (simp add: own_properties_eval)
  have c: "hasOwnProperty ?obj ''__proto__'' \<or> hasOwnProperty ?obj ''constructor''
           \<or> hasOwnProperty ?obj ''prototype''"
    by (simp add: hasOwnProperty_def)
  have d: "cells (store_with ?obj) 1 = Some \<lparr> proto = ObjectPrototype, own = ?obj \<rparr>"
    and e: "cells (store_with ?obj) Object_prototype = Some \<lparr> proto = NullPrototype, own = [] \<rparr>"
    and f: "cells (store_with ?obj) (next_addr (store_with ?obj)) = None"
    and n: "next_addr (store_with ?obj) = 2"
    by (simp_all add: store_with_def Object_prototype_def)
  show ?thesis
    using a b sweep_copies_into_new_object [OF a b c d e f]
    unfolding n by (simp add: hasOwnProperty_def)
qed

lemma sweep_keeps_nested_keys:
  \<open>safeJsonParse excerpt
      ''{"constructor":{"prototype":{"isAdmin":true}},"normalKey":{"prototype":"kept"}}''
     = JObj [(''normalKey'', JObj [(''prototype'', JStr ''kept'')])]\<close>
proof -
  have a: \<open>JSON_parse excerpt
      ''{"constructor":{"prototype":{"isAdmin":true}},"normalKey":{"prototype":"kept"}}''
     = Inr (JObj [(''constructor'', JObj [(''prototype'', JObj [(''isAdmin'', JBool True)])]),
                  (''normalKey'', JObj [(''prototype'', JStr ''kept'')])])\<close>
    by (simp add: excerpt_simps)
  show ?thesis
    by (simp add: safeJsonParse_Inr [OF a] hasDangerousKeys_def sanitize_eval)
qed

text \<open>
  The claim as stated has the result made with an empty prototype. It is not: on the
  parse of \<^verbatim>\<open>{"__proto__":{"isAdmin":true},"normalKey":"value"}\<close> the new object has
  \<^verbatim>\<open>Object.prototype\<close> as its prototype, as every object made by the literal \<^verbatim>\<open>{}\<close>.
\<close>

theorem empty_prototype_counterexample:
  "fst (sweep (store_with [(''__proto__'', JObj [(''isAdmin'', JBool True)]),
                           (''normalKey'', JStr ''value'' :: rat jsval)]) 1) = 2
   \<and> proto (the (cells (snd (sweep (store_with [(''__proto__'', JObj [(''isAdmin'', JBool True)]),
                                                (''normalKey'', JStr ''value'' :: rat jsval)]) 1)) 2))
       = ObjectPrototype
   \<and> proto (the (cells (snd (sweep (store_with [(''__proto__'', JObj [(''isAdmin'', JBool True)]),
                                                (''normalKey'', JStr ''value'' :: rat jsval)]) 1)) 2))
       \<noteq> NullPrototype
   \<and> proto (sanitized_object [(''__proto__'', JObj [(''isAdmin'', JBool True)]),
                               (''normalKey'', JStr ''value'' :: rat jsval)]) = ObjectPrototype"
proof -
  let ?obj = "[(''__proto__'', JObj [(''isAdmin'', JBool True)]),
               (''normalKey'', JStr ''value'' :: rat jsval)]"
  have b: "own_properties ?obj"
    by (simp add: own_properties_eval)
  have d: "cells (store_with ?obj) 1 = Some \<lparr> proto = ObjectPrototype, own = ?obj \<rparr>"
    and f: "cells (store_with ?obj) (next_addr (store_with ?obj)) = None"
    and n: "next_addr (store_with ?obj) = 2"
    by (simp_all add: store_with_def Object_prototype_def)
  show ?thesis
    unfolding sweep_eq [OF d f] n by (simp add: sanitized_object_eq [OF b])
qed

section \<open>Properties of hydration\<close>

lemma excerpt_toString: "URLSearchParams_toString excerpt = urlencoded_serialize"
  by (simp add: excerpt_def)

lemmas urlencode_eval = excerpt_toString searchParamsToString_def urlencode_def
  urlencode_byte_def hex_digit_def

lemma excerpt_parse_John: "JSON_parse excerpt ''John'' = Inl SyntaxError"
  by (simp add: excerpt_simps)

lemma excerpt_parse_30: "JSON_parse excerpt ''30'' = Inr (JNum 30)"
  by (simp add: excerpt_simps)

lemma restoredValues_snoc:
  "restoredValues p opts (ps @ [kv]) = restore_step p opts (restoredValues p opts ps) kv"
  by (simp add: restoredValues_def)

lemma map_of_own_obj_assign:
  "map_of (own (obj_assign target k v)) key =
     (if k = key \<and> key \<noteq> ''__proto__'' then Some v
      else if k = key then map_of (own (obj_assign target k v)) key
      else map_of (own target) key)"
  by (simp add: obj_assign_def map_of_obj_update)

lemma keys_own_obj_assign:
  "fst ` set (own (obj_assign target k v)) \<subseteq> insert k (fst ` set (own target))"
  by (auto simp: obj_assign_def keys_obj_update)

lemma restoredValues_lookup:
  "key \<notin> set (excludeFields opts) \<Longrightarrow> key \<noteq> ''__proto__'' \<Longrightarrow> map_of (rev ps) key = Some s
   \<Longrightarrow> s \<noteq> '''' \<Longrightarrow> map_of (own (restoredValues p opts ps)) key = Some (safeJsonParse p s)"
proof (induction ps rule: rev_induct)
  case Nil
  then show ?case by simp
next
  case (snoc kv ps)
  obtain k v where kv: "kv = (k, v)" by (cases kv)
  show ?case
  proof (cases "k = key")
    case True
    then have "v = s" using snoc.prems(3) kv by simp
    then show ?thesis
      using True kv snoc.prems
      by (simp add: restoredValues_snoc restore_step_def map_of_own_obj_assign)
  next
    case False
    then have "map_of (rev ps) key = Some s" using snoc.prems(3) kv by simp
    then have IH: "map_of (own (restoredValues p opts ps)) key = Some (safeJsonParse p s)"
      using snoc.IH snoc.prems by simp
    show ?thesis
      using False kv IH
      by (simp add: restoredValues_snoc restore_step_def map_of_own_obj_assign)
  qed
qed

lemma keys_restore_step:
  "fst ` set (own (restore_step p opts acc kv)) \<subseteq> insert (fst kv) (fst ` set (own acc))"
  using keys_own_obj_assign [of acc "fst kv"]
  by (cases kv) (auto simp: restore_step_def)

lemma restore_step_excluded:
  "fst kv \<in> set (excludeFields opts) \<Longrightarrow> restore_step p opts acc kv = acc"
  by (cases kv) (simp add: restore_step_def)

lemma restoredValues_excluded:
  "f \<in> set (excludeFields opts) \<Longrightarrow> f \<notin> fst ` set (own (restoredValues p opts ps))"
proof (induction ps rule: rev_induct)
  case Nil
  then show ?case by (simp add: restoredValues_def empty_object_literal_def)
next
  case (snoc kv ps)
  show ?case
  proof (cases "fst kv = f")
    case True
    then show ?thesis
      using snoc by (simp add: restoredValues_snoc restore_step_excluded)
  next
    case False
    then show ?thesis
      using snoc keys_restore_step [of p opts "restoredValues p opts ps" kv]
      by (auto simp: restoredValues_snoc)
  qed
qed

lemma reset_calls_hydrate:
  "reset_calls (hydrate p opts ps h) =
     reset_calls h @ (if own (restoredValues p opts ps) = [] then []
                      else [restoredValues p opts ps])"
  by (simp add: hydrate_def Let_def)

lemma hydrate_fields:
  "lastUrlParamsRef (hydrate p opts searchParams h) = searchParamsToString p searchParams"
  "firstRender (hydrate p opts searchParams h) = False"
  "isUpdatingFromUrlRef (hydrate p opts searchParams h)
     = (own (restoredValues p opts searchParams) \<noteq> [] \<or> isUpdatingFromUrlRef h)"
  "setSearchParams_calls (hydrate p opts searchParams h) = setSearchParams_calls h"
  "timers (hydrate p opts searchParams h) = timers h"
  "timeoutRef (hydrate p opts searchParams h) = timeoutRef h"
  by (auto simp: hydrate_def Let_def)

text \<open>
  Claim C10. Decoding depends on the string alone: a string that \<^verbatim>\<open>JSON.parse\<close> reads as a
  boolean or a number decodes to that boolean or number, and hydration hands it to
  \<^verbatim>\<open>reset\<close> as such, under the key whose last value in the query string it is (a key that
  is not excluded and is not \<^verbatim>\<open>__proto__\<close>). Neither function takes the form's default
  values.
\<close>

theorem decode_type_from_content:
  assumes "JSON_parse p s = Inr v" and "v = JBool b \<or> v = JNum n"
  shows "safeJsonParse p s = v
         \<and> (key \<notin> set (excludeFields opts) \<and> key \<noteq> ''__proto__'' \<and> s \<noteq> ''''
              \<and> map_of (rev searchParams) key = Some s
             \<longrightarrow> obj_get (own (restoredValues p opts searchParams)) key = v
                 \<and> reset_calls (hydrate p opts searchParams h)
                     = reset_calls h @ [restoredValues p opts searchParams])"
proof -
  have dec: "safeJsonParse p s = v"
    using assms by (auto simp: safeJsonParse_Inr)
  moreover have "obj_get (own (restoredValues p opts searchParams)) key = v
                 \<and> reset_calls (hydrate p opts searchParams h)
                     = reset_calls h @ [restoredValues p opts searchParams]"
    if "key \<notin> set (excludeFields opts)" "key \<noteq> ''__proto__''" "s \<noteq> ''''"
       "map_of (rev searchParams) key = Some s"
  proof -
    have look: "map_of (own (restoredValues p opts searchParams)) key = Some v"
      using restoredValues_lookup [where p = p, OF that(1,2,4,3)] dec by simp
    then have "own (restoredValues p opts searchParams) \<noteq> []" by auto
    then show ?thesis
      using look by (simp add: obj_get_def reset_calls_hydrate)
  qed
  ultimately show ?thesis by blast
qed

lemmas restore_eval = restoredValues_def restore_step_def opts0_def obj_assign_def
  obj_update_def hasOwnProperty_def empty_object_literal_def precedes_def array_index_def
  is_digit_def

lemma restored_John_30:
  "restoredValues excerpt opts0 [(''name'', ''John''), (''age'', ''30'')]
     = \<lparr> proto = ObjectPrototype, own = [(''name'', JStr ''John''), (''age'', JNum 30)] \<rparr>"
  "restoredValues excerpt opts0 [(''age'', ''30''), (''name'', ''John'')]
     = \<lparr> proto = ObjectPrototype, own = [(''age'', JNum 30), (''name'', JStr ''John'')] \<rparr>"
  by (simp_all add: restore_eval
        safeJsonParse_Inl [OF excerpt_parse_John] safeJsonParse_Inr [OF excerpt_parse_30])

theorem decode_type_from_content_witness:
  "JSON_parse excerpt ''true'' = Inr (JBool True)
   \<and> safeJsonParse excerpt ''true'' = JBool True
   \<and> JSON_parse excerpt ''30'' = Inr (JNum 30)
   \<and> safeJsonParse excerpt ''30'' = JNum 30
   \<and> JSON_parse excerpt ''99.99'' = Inr (JNum (9999 / 100))
   \<and> safeJsonParse excerpt ''99.99'' = JNum (9999 / 100)
   \<and> obj_get (own (restoredValues excerpt opts0 [(''name'', ''John''), (''age'', ''30'')])) ''age''
       = JNum 30
   \<and> reset_calls (hydrate excerpt opts0 [(''name'', ''John''), (''age'', ''30'')] mount)
       = [restoredValues excerpt opts0 [(''name'', ''John''), (''age'', ''30'')]]"
proof -
  have a: "JSON_parse excerpt ''true'' = Inr (JBool True)"
    and b: "JSON_parse excerpt ''30'' = Inr (JNum 30)"
    and c: "JSON_parse excerpt ''99.99'' = Inr (JNum (9999 / 100))"
    by (simp_all add: excerpt_simps)
  show ?thesis
    using a b c
      decode_type_from_content [OF a, of True 0 "''active''" opts0 "[]" mount]
      decode_type_from_content [OF b, of True 30 "''age''" opts0
        "[(''name'', ''John''), (''age'', ''30'')]" mount]
      decode_type_from_content [OF c, of True "9999 / 100" "''price''" opts0 "[]" mount]
    by (simp add: opts0_def mount_def)
qed

text \<open>
  The assignment of line 232 under the name \<^verbatim>\<open>__proto__\<close>: a decoded object becomes the
  prototype of the mapping and makes no own key; after \<^verbatim>\<open>null\<close>, the accessor is out of
  reach and the next pair of that name makes an own property.
\<close>

lemma restoredValues_proto_examples:
  \<open>restoredValues excerpt opts0 [(''__proto__'', ''{"category":"tech"}''), (''name'', ''John'')]
     = \<lparr> proto = Decoded (JObj [(''category'', JStr ''tech'')]), own = [(''name'', JStr ''John'')] \<rparr>\<close>
  \<open>restoredValues excerpt opts0 [(''__proto__'', ''null''), (''__proto__'', ''30'')]
     = \<lparr> proto = NullPrototype, own = [(''__proto__'', JNum 30)] \<rparr>\<close>
  \<open>restoredValues excerpt opts0 [(''__proto__'', ''30'')] = \<lparr> proto = ObjectPrototype, own = [] \<rparr>\<close>
proof -
  have a: \<open>JSON_parse excerpt ''{"category":"tech"}'' = Inr (JObj [(''category'', JStr ''tech'')])\<close>
    and b: "JSON_parse excerpt ''null'' = Inr JNull"
    by (simp_all add: excerpt_simps)
  show \<open>restoredValues excerpt opts0 [(''__proto__'', ''{"category":"tech"}''), (''name'', ''John'')]
     = \<lparr> proto = Decoded (JObj [(''category'', JStr ''tech'')]), own = [(''name'', JStr ''John'')] \<rparr>\<close>
    by (simp add: restore_eval safeJsonParse_Inl [OF excerpt_parse_John]
        safeJsonParse_Inr [OF a] hasDangerousKeys_def)
  show \<open>restoredValues excerpt opts0 [(''__proto__'', ''null''), (''__proto__'', ''30'')]
     = \<lparr> proto = NullPrototype, own = [(''__proto__'', JNum 30)] \<rparr>\<close>
    by (simp add: restore_eval safeJsonParse_Inr [OF excerpt_parse_30] safeJsonParse_Inr [OF b])
  show \<open>restoredValues excerpt opts0 [(''__proto__'', ''30'')] = \<lparr> proto = ObjectPrototype, own = [] \<rparr>\<close>
    by (simp add: restore_eval safeJsonParse_Inr [OF excerpt_parse_30])
qed

text \<open>Keys that are array indices come first in the mapping, in ascending order.\<close>

lemma restoredValues_order_example:
  "own (restoredValues excerpt opts0 [(''b'', ''30''), (''10'', ''30''), (''2'', ''30'')])
     = [(''2'', JNum 30), (''10'', JNum 30), (''b'', JNum 30)]"
  by (simp add: restore_eval decimal_value_def safeJsonParse_Inr [OF excerpt_parse_30])

section \<open>Properties of publication\<close>

subsection \<open>delete and set\<close>

lemma of_key_simps:
  "of_key k [] = []"
  "of_key k (x # ps) = (if fst x = k then x # of_key k ps else of_key k ps)"
  by (simp_all add: of_key_def)

lemma of_key_Nil_iff: "of_key k ps = [] \<longleftrightarrow> k \<notin> fst ` set ps"
  by (induction ps) (auto simp: of_key_simps)

lemma of_key_params_delete:
  "of_key k (params_delete k' ps) = (if k = k' then [] else of_key k ps)"
  by (induction ps) (auto simp: of_key_simps params_delete_def)

lemma of_key_params_set:
  "of_key k (params_set k' v ps) = (if k = k' then [(k, v)] else of_key k ps)"
  by (induction ps) (auto simp: of_key_simps of_key_params_delete)

lemma keys_params_delete: "fst ` set (params_delete k ps) = fst ` set ps - {k}"
  by (auto simp: params_delete_def)

lemma keys_params_set: "fst ` set (params_set k v ps) = insert k (fst ` set ps)"
proof -
  have "x \<in> fst ` set (params_set k v ps) \<longleftrightarrow> x \<in> insert k (fst ` set ps)" for x
    using of_key_Nil_iff [of x "params_set k v ps"] of_key_Nil_iff [of x ps]
    by (simp add: of_key_params_set split: if_splits)
  then show ?thesis by blast
qed

lemma params_delete_absent: "k \<notin> fst ` set ps \<Longrightarrow> params_delete k ps = ps"
  by (induction ps) (auto simp: params_delete_def)

lemma params_set_same: "of_key k ps = [(k, v)] \<Longrightarrow> params_set k v ps = ps"
proof (induction ps)
  case Nil
  then show ?case by (simp add: of_key_simps)
next
  case (Cons x ps)
  obtain k' v' where x: "x = (k', v')" by (cases x)
  show ?case
  proof (cases "k' = k")
    case True
    then have "v' = v" and "of_key k ps = []"
      using Cons.prems x by (simp_all add: of_key_simps)
    then show ?thesis
      using True x by (simp add: of_key_Nil_iff params_delete_absent)
  next
    case False
    then show ?thesis using Cons x by (simp add: of_key_simps)
  qed
qed

subsection \<open>One round of the loop\<close>

lemma entry_step_excluded: "fst kv \<in> set (excludeFields opts) \<Longrightarrow> entry_step p opts ps kv = ps"
  by (cases kv) (simp add: entry_step_def)

lemma entry_step_throws: "entry_throws p opts kv \<Longrightarrow> entry_step p opts ps kv = ps"
  by (cases kv) (auto simp: entry_step_def entry_throws_def Let_def isl_def)

text \<open>Which operation is applied depends on the entry only, not on the working copy.\<close>

lemma entry_step_form:
  assumes "fst kv \<notin> set (excludeFields opts)" and "\<not> entry_throws p opts kv"
  shows "(\<forall>ps. entry_step p opts ps kv = params_delete (fst kv) ps)
         \<or> (\<exists>s. s \<noteq> '''' \<and> (\<forall>ps. entry_step p opts ps kv = params_set (fst kv) s ps))"
proof -
  obtain k v where kv: "kv = (k, v)" by (cases kv)
  show ?thesis
  proof (cases "v = JUndefined \<or> v = JNull \<or> v = JStr ''''")
    case True
    then have "\<forall>ps. entry_step p opts ps kv = params_delete (fst kv) ps"
      using assms(1) kv by (auto simp: entry_step_def Let_def)
    then show ?thesis ..
  next
    case False
    then obtain r out where ser: "safeSerialize p v = Inr (r, out)"
      using assms kv by (cases "safeSerialize p v") (auto simp: entry_throws_def)
    show ?thesis
    proof (cases "r = None \<or> r = Some ''''")
      case True
      then have "\<forall>ps. entry_step p opts ps kv = params_delete (fst kv) ps"
        using assms(1) kv ser False by (auto simp: entry_step_def Let_def)
      then show ?thesis ..
    next
      case False
      then obtain s where s: "r = Some s" "s \<noteq> ''''" by (cases r) auto
      then have "\<forall>ps. entry_step p opts ps kv = params_set (fst kv) s ps"
        using assms(1) kv ser \<open>\<not> (v = JUndefined \<or> v = JNull \<or> v = JStr '''')\<close>
        by (auto simp: entry_step_def Let_def)
      then show ?thesis using s by blast
    qed
  qed
qed

lemma keys_entry_step: "fst ` set (entry_step p opts ps kv) \<subseteq> insert (fst kv) (fst ` set ps)"
proof (cases "fst kv \<in> set (excludeFields opts) \<or> entry_throws p opts kv")
  case True
  then show ?thesis by (auto simp: entry_step_excluded entry_step_throws)
next
  case False
  then have "fst kv \<notin> set (excludeFields opts)" "\<not> entry_throws p opts kv" by simp_all
  from entry_step_form [OF this] show ?thesis
  proof (elim disjE exE conjE)
    assume "\<forall>ps. entry_step p opts ps kv = params_delete (fst kv) ps"
    then have "fst ` set (entry_step p opts ps kv) = fst ` set ps - {fst kv}"
      by (simp add: keys_params_delete)
    then show ?thesis by blast
  next
    fix s
    assume "\<forall>ps. entry_step p opts ps kv = params_set (fst kv) s ps"
    then have "fst ` set (entry_step p opts ps kv) = insert (fst kv) (fst ` set ps)"
      by (simp add: keys_params_set)
    then show ?thesis by blast
  qed
qed

lemma of_key_entry_step: "k \<noteq> fst kv \<Longrightarrow> of_key k (entry_step p opts ps kv) = of_key k ps"
proof (cases "fst kv \<in> set (excludeFields opts) \<or> entry_throws p opts kv")
  case True
  then show ?thesis by (auto simp: entry_step_excluded entry_step_throws)
next
  case False
  then have "fst kv \<notin> set (excludeFields opts)" "\<not> entry_throws p opts kv" by simp_all
  moreover assume "k \<noteq> fst kv"
  ultimately show ?thesis
    using entry_step_form [of kv opts p]
    by (auto simp: of_key_params_delete of_key_params_set)
qed

lemma entry_step_stable:
  assumes "of_key (fst kv) ps' = of_key (fst kv) (entry_step p opts ps kv)"
  shows "entry_step p opts ps' kv = ps'"
proof (cases "fst kv \<in> set (excludeFields opts) \<or> entry_throws p opts kv")
  case True
  then show ?thesis by (auto simp: entry_step_excluded entry_step_throws)
next
  case False
  then have "fst kv \<notin> set (excludeFields opts)" "\<not> entry_throws p opts kv" by simp_all
  from entry_step_form [OF this] show ?thesis
  proof
    assume del: "\<forall>ps. entry_step p opts ps kv = params_delete (fst kv) ps"
    then have "of_key (fst kv) ps' = []"
      using assms by (simp add: of_key_params_delete)
    then show ?thesis
      using del by (simp add: of_key_Nil_iff params_delete_absent)
  next
    assume "\<exists>s. s \<noteq> '''' \<and> (\<forall>ps. entry_step p opts ps kv = params_set (fst kv) s ps)"
    then obtain s where s: "\<forall>ps. entry_step p opts ps kv = params_set (fst kv) s ps" by blast
    then have "of_key (fst kv) ps' = [(fst kv, s)]"
      using assms by (simp add: of_key_params_set)
    then show ?thesis
      using s by (simp add: params_set_same)
  qed
qed

subsection \<open>The loop stops at the first entry that throws\<close>

lemma publish_loop_continue:
  "\<not> entry_throws p opts kv \<Longrightarrow>
   \<exists>out'. publish_loop p opts (ps, out) (kv # rest)
            = publish_loop p opts (entry_step p opts ps kv, out') rest"
  by (cases kv)
     (auto simp: entry_step_def entry_throws_def Let_def split: sum.splits option.splits)

lemma publish_loop_stop:
  "entry_throws p opts kv \<Longrightarrow>
   \<exists>e out'. publish_loop p opts (ps, out) (kv # rest) = (Some e, ps, out')"
  by (cases kv)
     (auto simp: entry_throws_def Let_def isl_def split: sum.splits option.splits)

lemma publish_loop_params:
  "fst (snd (publish_loop p opts (ps, out) vs))
     = foldl (entry_step p opts) ps (takeWhile (\<lambda>kv. \<not> entry_throws p opts kv) vs)"
proof (induction vs arbitrary: ps out)
  case Nil
  then show ?case by simp
next
  case (Cons kv vs)
  show ?case
  proof (cases "entry_throws p opts kv")
    case True
    from publish_loop_stop [OF this, of ps out vs] show ?thesis
      using True by auto
  next
    case False
    from publish_loop_continue [OF this, of ps out vs] show ?thesis
      using False Cons.IH by auto
  qed
qed

lemma publish_loop_thrown:
  "fst (publish_loop p opts (ps, out) vs) = None
     \<longleftrightarrow> list_all (\<lambda>kv. \<not> entry_throws p opts kv) vs"
proof (induction vs arbitrary: ps out)
  case Nil
  then show ?case by simp
next
  case (Cons kv vs)
  show ?case
  proof (cases "entry_throws p opts kv")
    case True
    from publish_loop_stop [OF this, of ps out vs] show ?thesis
      using True by auto
  next
    case False
    from publish_loop_continue [OF this, of ps out vs] show ?thesis
      using False Cons.IH by auto
  qed
qed

subsection \<open>The working copy\<close>

lemma of_key_foldl_entry_step:
  "k \<notin> fst ` set vs \<Longrightarrow> of_key k (foldl (entry_step p opts) ps vs) = of_key k ps"
  by (induction vs arbitrary: ps) (auto simp: of_key_entry_step)

lemma keys_foldl_entry_step:
  "f \<in> set (excludeFields opts) \<Longrightarrow> f \<notin> fst ` set ps
   \<Longrightarrow> f \<notin> fst ` set (foldl (entry_step p opts) ps vs)"
proof (induction vs arbitrary: ps)
  case Nil
  then show ?case by simp
next
  case (Cons kv vs)
  have "f \<notin> fst ` set (entry_step p opts ps kv)"
  proof (cases "fst kv = f")
    case True
    then show ?thesis using Cons.prems by (simp add: entry_step_excluded)
  next
    case False
    then show ?thesis
      using Cons.prems(2) keys_entry_step [of p opts ps kv] by auto
  qed
  then show ?case using Cons by simp
qed

lemma keys_foldl_delete:
  "fst ` set (foldl (\<lambda>ps field. params_delete field ps) ps fs) = fst ` set ps - set fs"
  by (induction fs arbitrary: ps) (auto simp: keys_params_delete)

lemma of_key_foldl_delete:
  "k \<notin> set fs \<Longrightarrow> of_key k (foldl (\<lambda>ps field. params_delete field ps) ps fs) = of_key k ps"
  by (induction fs arbitrary: ps) (auto simp: of_key_params_delete)

lemma foldl_delete_absent:
  "fst ` set ps \<inter> set fs = {} \<Longrightarrow> foldl (\<lambda>ps field. params_delete field ps) ps fs = ps"
  by (induction fs arbitrary: ps) (auto simp: params_delete_absent)

lemma newParams_of_eq:
  "newParams_of p opts searchParams vs =
     foldl (entry_step p opts)
       (foldl (\<lambda>ps field. params_delete field ps) searchParams (excludeFields opts))
       (takeWhile (\<lambda>kv. \<not> entry_throws p opts kv) vs)"
  by (simp add: newParams_of_def working_copy_def publish_loop_params)

lemma thrown_by_None:
  "thrown_by p opts searchParams vs = None \<longleftrightarrow> list_all (\<lambda>kv. \<not> entry_throws p opts kv) vs"
  by (simp add: thrown_by_def working_copy_def publish_loop_thrown)

lemma newParams_of_excluded:
  "f \<in> set (excludeFields opts) \<Longrightarrow> f \<notin> fst ` set (newParams_of p opts searchParams vs)"
  unfolding newParams_of_eq
  by (rule keys_foldl_entry_step) (simp_all add: keys_foldl_delete)

lemma newParams_of_frame:
  assumes "k \<notin> set (excludeFields opts)" and "k \<notin> fst ` set vs"
  shows "of_key k (newParams_of p opts searchParams vs) = of_key k searchParams"
proof -
  have "k \<notin> fst ` set (takeWhile (\<lambda>kv. \<not> entry_throws p opts kv) vs)"
    using assms(2) by (auto dest: set_takeWhileD)
  then show ?thesis
    using assms(1) by (simp add: newParams_of_eq of_key_foldl_entry_step of_key_foldl_delete)
qed

lemma foldl_stable: "(\<And>x. x \<in> set xs \<Longrightarrow> f a x = a) \<Longrightarrow> foldl f a xs = a"
  by (induction xs) simp_all

lemma newParams_of_idem:
  assumes "distinct (map fst vs)"
  shows "newParams_of p opts (newParams_of p opts searchParams vs) vs
           = newParams_of p opts searchParams vs"
proof -
  let ?S = "foldl (\<lambda>ps field. params_delete field ps) searchParams (excludeFields opts)"
  let ?R = "newParams_of p opts searchParams vs"
  let ?ws = "takeWhile (\<lambda>kv. \<not> entry_throws p opts kv) vs"
  have "distinct (map fst (?ws @ dropWhile (\<lambda>kv. \<not> entry_throws p opts kv) vs))"
    using assms by (simp only: takeWhile_dropWhile_id)
  then have dist: "distinct (map fst ?ws)"
    unfolding map_append distinct_append by blast
  have del: "foldl (\<lambda>ps field. params_delete field ps) ?R (excludeFields opts) = ?R"
    by (rule foldl_delete_absent) (use newParams_of_excluded [of _ opts p searchParams vs] in auto)
  have stable: "entry_step p opts ?R kv = ?R" if mem: "kv \<in> set ?ws" for kv
  proof -
    obtain xs ys where split: "?ws = xs @ kv # ys"
      using mem by (auto simp: in_set_conv_decomp)
    then have "fst kv \<notin> fst ` set ys"
      using dist by auto
    then have "of_key (fst kv) ?R = of_key (fst kv) (entry_step p opts (foldl (entry_step p opts) ?S xs) kv)"
      unfolding newParams_of_eq split by (simp add: of_key_foldl_entry_step)
    then show ?thesis by (rule entry_step_stable)
  qed
  have "newParams_of p opts ?R vs = foldl (entry_step p opts) ?R ?ws"
    unfolding newParams_of_eq [of p opts ?R vs] del ..
  also have "\<dots> = ?R"
    using stable by (rule foldl_stable)
  finally show ?thesis .
qed

lemma publish_loop_thrown_same:
  "fst (publish_loop p opts (ps, out) vs) = fst (publish_loop p opts (ps', out') vs)"
proof (induction vs arbitrary: ps out ps' out')
  case Nil
  then show ?case by simp
next
  case (Cons kv vs)
  show ?case
  proof (cases "entry_throws p opts kv")
    case True
    then obtain k v e where kv: "kv = (k, v)" and e: "safeSerialize p v = Inl e"
      by (cases kv) (auto simp: entry_throws_def isl_def)
    then show ?thesis
      using True by (auto simp: entry_throws_def Let_def)
  next
    case False
    obtain o1 where a: "publish_loop p opts (ps, out) (kv # vs)
                          = publish_loop p opts (entry_step p opts ps kv, o1) vs"
      using publish_loop_continue [OF False] by blast
    obtain o2 where b: "publish_loop p opts (ps', out') (kv # vs)
                          = publish_loop p opts (entry_step p opts ps' kv, o2) vs"
      using publish_loop_continue [OF False] by blast
    show ?thesis
      unfolding a b by (rule Cons.IH)
  qed
qed

lemma thrown_by_snapshot: "thrown_by p opts searchParams' vs = thrown_by p opts searchParams vs"
  by (simp add: thrown_by_def working_copy_def publish_loop_thrown_same [of p opts _ "[]" vs _ "[]"])

subsection \<open>The timeout callback\<close>

lemma working_copy_parts:
  obtains out where
    "working_copy p opts searchParams vs
       = (thrown_by p opts searchParams vs, newParams_of p opts searchParams vs, out)"
  by (cases "working_copy p opts searchParams vs") (simp add: thrown_by_def newParams_of_def)

lemma publish_sink:
  "setSearchParams_calls (publish p opts searchParams vs h) =
     setSearchParams_calls h @
       (if thrown_by p opts searchParams vs = None
           \<and> searchParamsToString p (newParams_of p opts searchParams vs) \<noteq> lastUrlParamsRef h
        then [newParams_of p opts searchParams vs] else [])"
proof -
  obtain out where w: "working_copy p opts searchParams vs
       = (thrown_by p opts searchParams vs, newParams_of p opts searchParams vs, out)"
    by (rule working_copy_parts)
  show ?thesis
    by (cases "thrown_by p opts searchParams vs") (simp_all add: publish_def w Let_def)
qed

lemma publish_last:
  "lastUrlParamsRef (publish p opts searchParams vs h) =
     (if thrown_by p opts searchParams vs = None
      then searchParamsToString p (newParams_of p opts searchParams vs)
      else lastUrlParamsRef h)"
proof -
  obtain out where w: "working_copy p opts searchParams vs
       = (thrown_by p opts searchParams vs, newParams_of p opts searchParams vs, out)"
    by (rule working_copy_parts)
  show ?thesis
    by (cases "thrown_by p opts searchParams vs") (simp_all add: publish_def w Let_def)
qed

lemma publish_uncaught:
  "uncaught (publish p opts searchParams vs h) =
     uncaught h @ (case thrown_by p opts searchParams vs of None \<Rightarrow> [] | Some e \<Rightarrow> [e])"
proof -
  obtain out where w: "working_copy p opts searchParams vs
       = (thrown_by p opts searchParams vs, newParams_of p opts searchParams vs, out)"
    by (rule working_copy_parts)
  show ?thesis
    by (cases "thrown_by p opts searchParams vs") (simp_all add: publish_def w Let_def)
qed

lemma publish_refs:
  "firstRender (publish p opts searchParams vs h) = firstRender h"
  "isUpdatingFromUrlRef (publish p opts searchParams vs h) = isUpdatingFromUrlRef h"
  "timeoutRef (publish p opts searchParams vs h) = timeoutRef h"
  "timers (publish p opts searchParams vs h) = timers h"
  "now (publish p opts searchParams vs h) = now h"
  "reset_calls (publish p opts searchParams vs h) = reset_calls h"
  by (simp_all add: publish_def Let_def split: prod.splits option.splits)

lemma hydration_effect_same:
  "\<not> firstRender h \<Longrightarrow> searchParamsToString p searchParams = lastUrlParamsRef h
   \<Longrightarrow> hydration_effect p opts searchParams h = h"
  by (simp add: hydration_effect_def)

text \<open>
  Claim C1. For a field name in \<^verbatim>\<open>excludeFields\<close>: the working copy that a publication
  cycle builds has no pair of that name, so no mapping that the cycle hands to
  \<^verbatim>\<open>setSearchParams\<close> has one; and the restored-values mapping that a hydration pass
  builds has no such key, so no mapping handed to \<^verbatim>\<open>reset\<close> has one, whatever the query
  string holds under that name.
\<close>

theorem exclusion_invariant:
  assumes "f \<in> set (excludeFields opts)"
  shows "\<not> f \<in> fst ` set (newParams_of p opts searchParams vs)
         \<and> (\<exists>cs. setSearchParams_calls (publish p opts searchParams vs h)
                    = setSearchParams_calls h @ cs
                  \<and> list_all (\<lambda>c. \<not> f \<in> fst ` set c) cs)
         \<and> \<not> hasOwnProperty (own (restoredValues p opts searchParams)) f
         \<and> (\<exists>rs. reset_calls (hydration_effect p opts searchParams h) = reset_calls h @ rs
                  \<and> list_all (\<lambda>r. \<not> hasOwnProperty (own r) f) rs)"
proof -
  have a: "f \<notin> fst ` set (newParams_of p opts searchParams vs)"
    using assms by (rule newParams_of_excluded)
  have b: "\<not> hasOwnProperty (own (restoredValues p opts searchParams)) f"
    using restoredValues_excluded [OF assms, of p searchParams]
    by (simp add: hasOwnProperty_def)
  have c: "\<exists>cs. setSearchParams_calls (publish p opts searchParams vs h)
                    = setSearchParams_calls h @ cs
                  \<and> list_all (\<lambda>c. \<not> f \<in> fst ` set c) cs"
    using a by (simp add: publish_sink)
  have d: "\<exists>rs. reset_calls (hydration_effect p opts searchParams h) = reset_calls h @ rs
                  \<and> list_all (\<lambda>r. \<not> hasOwnProperty (own r) f) rs"
    using b by (simp add: hydration_effect_def reset_calls_hydrate Let_def)
  show ?thesis using a b c d by blast
qed

lemmas publish_eval = newParams_of_def thrown_by_def working_copy_def
  warnIfSensitiveField_def safeSerialize_cases params_delete_def opts0_def

theorem exclusion_invariant_witness:
  "''password'' \<in> set (excludeFields opts0)
   \<and> newParams_of excerpt opts0 [(''password'', ''secret123''), (''name'', ''John'')]
        [(''name'', JStr ''Jane''), (''password'', JStr ''hunter2'')] = [(''name'', ''Jane'')]
   \<and> \<not> ''password'' \<in> fst ` set (newParams_of excerpt opts0
        [(''password'', ''secret123''), (''name'', ''John'')]
        [(''name'', JStr ''Jane''), (''password'', JStr ''hunter2'')])
   \<and> restoredValues excerpt opts0 [(''password'', ''secret123''), (''name'', ''John'')]
        = \<lparr> proto = ObjectPrototype, own = [(''name'', JStr ''John'')] \<rparr>
   \<and> \<not> hasOwnProperty (own (restoredValues excerpt opts0
        [(''password'', ''secret123''), (''name'', ''John'')])) ''password''"
proof -
  have a: "''password'' \<in> set (excludeFields opts0)"
    by (simp add: opts0_def)
  have b: "newParams_of excerpt opts0 [(''password'', ''secret123''), (''name'', ''John'')]
        [(''name'', JStr ''Jane''), (''password'', JStr ''hunter2'')] = [(''name'', ''Jane'')]"
    by (simp add: publish_eval)
  have c: "restoredValues excerpt opts0 [(''password'', ''secret123''), (''name'', ''John'')]
        = \<lparr> proto = ObjectPrototype, own = [(''name'', JStr ''John'')] \<rparr>"
    by (simp add: restore_eval safeJsonParse_Inl [OF excerpt_parse_John])
  show ?thesis
    using a b c
      exclusion_invariant [OF a, of excerpt "[(''password'', ''secret123''), (''name'', ''John'')]"
        "[(''name'', JStr ''Jane''), (''password'', JStr ''hunter2'')]" mount]
    by simp
qed

text \<open>
  Claim C8. A name that is neither excluded nor a field of the form values keeps its pairs,
  values and order, from the snapshot to the working copy, and so to the mapping that is
  committed.
\<close>

theorem unrelated_parameters_preserved:
  assumes "k \<notin> set (excludeFields opts)" and "k \<notin> fst ` set vs"
  shows "of_key k (newParams_of p opts searchParams vs) = of_key k searchParams
         \<and> (\<forall>c. setSearchParams_calls (publish p opts searchParams vs h)
                    = setSearchParams_calls h @ [c]
                  \<longrightarrow> of_key k c = of_key k searchParams)"
proof -
  have "of_key k (newParams_of p opts searchParams vs) = of_key k searchParams"
    using assms by (rule newParams_of_frame)
  then show ?thesis
    by (auto simp: publish_sink split: if_splits)
qed

theorem unrelated_parameters_preserved_witness:
  "''unrelated'' \<notin> set (excludeFields opts0)
   \<and> ''unrelated'' \<notin> fst ` set [(''name'', JStr ''Jane'' :: rat jsval)]
   \<and> setSearchParams_calls
        (publish excerpt opts0 [(''unrelated'', ''value''), (''name'', ''John'')]
           [(''name'', JStr ''Jane'')] mount)
       = [[(''unrelated'', ''value''), (''name'', ''Jane'')]]
   \<and> of_key ''unrelated'' [(''unrelated'', ''value''), (''name'', ''Jane'')]
       = of_key ''unrelated'' [(''unrelated'', ''value''), (''name'', ''John'')]"
proof -
  have a: "''unrelated'' \<notin> set (excludeFields opts0)"
    by (simp add: opts0_def)
  have b: "''unrelated'' \<notin> fst ` set [(''name'', JStr ''Jane'' :: rat jsval)]"
    by simp
  have c: "newParams_of excerpt opts0 [(''unrelated'', ''value''), (''name'', ''John'')]
             [(''name'', JStr ''Jane'')] = [(''unrelated'', ''value''), (''name'', ''Jane'')]"
    and t: "thrown_by excerpt opts0 [(''unrelated'', ''value''), (''name'', ''John'')]
             [(''name'', JStr ''Jane'')] = None"
    by (simp_all add: publish_eval)
  have d: "setSearchParams_calls
        (publish excerpt opts0 [(''unrelated'', ''value''), (''name'', ''John'')]
           [(''name'', JStr ''Jane'')] mount)
       = [[(''unrelated'', ''value''), (''name'', ''Jane'')]]"
    unfolding publish_sink c t by (simp add: mount_def urlencode_eval)
  show ?thesis
    using a b d
      unrelated_parameters_preserved [OF a b, of excerpt
        "[(''unrelated'', ''value''), (''name'', ''John'')]" mount]
    by (simp add: of_key_simps)
qed

text \<open>
  Claim C7. Publishing the same form values (the entries of an object, so with distinct
  keys) a second time, from the snapshot of the first cycle or from the mapping that the
  first cycle computed, computes the same mapping, makes no call of \<^verbatim>\<open>setSearchParams\<close>
  and leaves the Last-Known Query String as it is. A cycle commits, and updates the
  Last-Known Query String, only when the canonical string differs from it, and it does so
  whenever the string differs and no value made the encoding throw. The first effect,
  observing the committed mapping between the two cycles, changes nothing.
\<close>

theorem publication_idempotent:
  assumes "distinct (map fst vs)"
    and "searchParams' = searchParams \<or> searchParams' = newParams_of p opts searchParams vs"
  shows "newParams_of p opts searchParams' vs = newParams_of p opts searchParams vs
         \<and> setSearchParams_calls (publish p opts searchParams' vs (publish p opts searchParams vs h))
             = setSearchParams_calls (publish p opts searchParams vs h)
         \<and> lastUrlParamsRef (publish p opts searchParams' vs (publish p opts searchParams vs h))
             = lastUrlParamsRef (publish p opts searchParams vs h)
         \<and> (searchParamsToString p (newParams_of p opts searchParams vs) = lastUrlParamsRef h
              \<longrightarrow> setSearchParams_calls (publish p opts searchParams vs h) = setSearchParams_calls h
                  \<and> lastUrlParamsRef (publish p opts searchParams vs h) = lastUrlParamsRef h)
         \<and> (setSearchParams_calls (publish p opts searchParams vs h) \<noteq> setSearchParams_calls h
              \<longrightarrow> searchParamsToString p (newParams_of p opts searchParams vs) \<noteq> lastUrlParamsRef h
                  \<and> lastUrlParamsRef (publish p opts searchParams vs h)
                    = searchParamsToString p (newParams_of p opts searchParams vs))
         \<and> (thrown_by p opts searchParams vs = None
              \<and> searchParamsToString p (newParams_of p opts searchParams vs) \<noteq> lastUrlParamsRef h
              \<longrightarrow> setSearchParams_calls (publish p opts searchParams vs h)
                    = setSearchParams_calls h @ [newParams_of p opts searchParams vs]
                  \<and> lastUrlParamsRef (publish p opts searchParams vs h)
                    = searchParamsToString p (newParams_of p opts searchParams vs))
         \<and> (thrown_by p opts searchParams vs = None \<and> \<not> firstRender h
              \<longrightarrow> hydration_effect p opts (newParams_of p opts searchParams vs)
                    (publish p opts searchParams vs h)
                  = publish p opts searchParams vs h)"
proof -
  have same: "newParams_of p opts searchParams' vs = newParams_of p opts searchParams vs"
    using assms newParams_of_idem [of vs p opts searchParams] by auto
  have thrown: "thrown_by p opts searchParams' vs = thrown_by p opts searchParams vs"
    by (rule thrown_by_snapshot)
  have echo: "hydration_effect p opts (newParams_of p opts searchParams vs)
                (publish p opts searchParams vs h) = publish p opts searchParams vs h"
    if "thrown_by p opts searchParams vs = None" "\<not> firstRender h"
    using that by (intro hydration_effect_same) (simp_all add: publish_refs publish_last)
  show ?thesis
    unfolding publish_sink publish_last same thrown using echo by simp
qed

theorem publication_idempotent_witness:
  "distinct (map fst [(''name'', JStr ''Jane'' :: rat jsval)])
   \<and> \<not> firstRender (hydrate excerpt opts0 [] mount)
   \<and> thrown_by excerpt opts0 [] [(''name'', JStr ''Jane'')] = None
   \<and> setSearchParams_calls
        (publish excerpt opts0 [] [(''name'', JStr ''Jane'')] (hydrate excerpt opts0 [] mount))
       = [[(''name'', ''Jane'')]]
   \<and> setSearchParams_calls
        (publish excerpt opts0 [(''name'', ''Jane'')] [(''name'', JStr ''Jane'')]
           (publish excerpt opts0 [] [(''name'', JStr ''Jane'')] (hydrate excerpt opts0 [] mount)))
       = [[(''name'', ''Jane'')]]
   \<and> lastUrlParamsRef
        (publish excerpt opts0 [(''name'', ''Jane'')] [(''name'', JStr ''Jane'')]
           (publish excerpt opts0 [] [(''name'', JStr ''Jane'')] (hydrate excerpt opts0 [] mount)))
       = ''name=Jane''
   \<and> hydration_effect excerpt opts0 [(''name'', ''Jane'')]
        (publish excerpt opts0 [] [(''name'', JStr ''Jane'')] (hydrate excerpt opts0 [] mount))
       = publish excerpt opts0 [] [(''name'', JStr ''Jane'')] (hydrate excerpt opts0 [] mount)"
proof -
  let ?h = "hydrate excerpt opts0 [] mount :: rat hook"
  have a: "distinct (map fst [(''name'', JStr ''Jane'' :: rat jsval)])"
    by simp
  have b: "newParams_of excerpt opts0 [] [(''name'', JStr ''Jane'')] = [(''name'', ''Jane'')]"
    and t: "thrown_by excerpt opts0 [] [(''name'', JStr ''Jane'')] = None"
    by (simp_all add: publish_eval)
  have c: "searchParamsToString excerpt [(''name'', ''Jane'')] = ''name=Jane''"
    by (simp add: urlencode_eval)
  have d: "[(''name'', ''Jane'')] = [] \<or>
           [(''name'', ''Jane'')] = newParams_of excerpt opts0 [] [(''name'', JStr ''Jane'')]"
    using b by simp
  have h: "\<not> firstRender ?h" "lastUrlParamsRef ?h = ''''" "setSearchParams_calls ?h = []"
    by (simp_all add: hydrate_fields mount_def urlencode_eval)
  have e: "lastUrlParamsRef (publish excerpt opts0 [] [(''name'', JStr ''Jane'')] ?h)
             = ''name=Jane''"
    unfolding publish_last b c t by simp
  show ?thesis
    using a e h t publication_idempotent [OF a d, of ?h]
      publication_idempotent [OF a d, of "publish excerpt opts0 [] [(''name'', JStr ''Jane'')] ?h"]
    unfolding b c by simp
qed

section \<open>Change detection\<close>

text \<open>
  Claim C9. On an observation after the first, the first effect compares the string form of
  the snapshot with the Last-Known Query String by equality of strings. When they are equal
  the pass changes nothing. When they differ, as for a snapshot with the same pairs in
  another order, the pass runs on: the Last-Known Query String becomes the new string form,
  the restored-values mapping is built, and \<^verbatim>\<open>reset\<close> is called with it when it has a key.
\<close>

theorem hydration_change_detection:
  assumes "\<not> firstRender h"
  shows "(searchParamsToString p searchParams = lastUrlParamsRef h
            \<longrightarrow> hydration_effect p opts searchParams h = h)
         \<and> (searchParamsToString p searchParams \<noteq> lastUrlParamsRef h
            \<longrightarrow> hydration_effect p opts searchParams h = hydrate p opts searchParams h
                \<and> lastUrlParamsRef (hydration_effect p opts searchParams h)
                    = searchParamsToString p searchParams
                \<and> reset_calls (hydration_effect p opts searchParams h)
                    = reset_calls h @
                        (if own (restoredValues p opts searchParams) = [] then []
                         else [restoredValues p opts searchParams]))"
  using assms
  by (simp add: hydration_effect_def hydrate_fields reset_calls_hydrate)

theorem hydration_change_detection_witness:
  "\<not> firstRender (hydrate excerpt opts0 [(''name'', ''John''), (''age'', ''30'')] mount)
   \<and> lastUrlParamsRef (hydrate excerpt opts0 [(''name'', ''John''), (''age'', ''30'')] mount)
       = ''name=John&age=30''
   \<and> searchParamsToString excerpt [(''name'', ''John''), (''age'', ''30'')] = ''name=John&age=30''
   \<and> hydration_effect excerpt opts0 [(''name'', ''John''), (''age'', ''30'')]
         (hydrate excerpt opts0 [(''name'', ''John''), (''age'', ''30'')] mount)
       = hydrate excerpt opts0 [(''name'', ''John''), (''age'', ''30'')] mount
   \<and> searchParamsToString excerpt [(''age'', ''30''), (''name'', ''John'')] = ''age=30&name=John''
   \<and> lastUrlParamsRef
         (hydration_effect excerpt opts0 [(''age'', ''30''), (''name'', ''John'')]
            (hydrate excerpt opts0 [(''name'', ''John''), (''age'', ''30'')] mount))
       = ''age=30&name=John''
   \<and> reset_calls
         (hydration_effect excerpt opts0 [(''age'', ''30''), (''name'', ''John'')]
            (hydrate excerpt opts0 [(''name'', ''John''), (''age'', ''30'')] mount))
       = [\<lparr> proto = ObjectPrototype, own = [(''name'', JStr ''John''), (''age'', JNum 30)] \<rparr>,
          \<lparr> proto = ObjectPrototype, own = [(''age'', JNum 30), (''name'', JStr ''John'')] \<rparr>]"
proof -
  let ?h = "hydrate excerpt opts0 [(''name'', ''John''), (''age'', ''30'')] mount"
  have a: "\<not> firstRender ?h"
    by (simp add: hydrate_fields)
  have s1: "searchParamsToString excerpt [(''name'', ''John''), (''age'', ''30'')] = ''name=John&age=30''"
    and s2: "searchParamsToString excerpt [(''age'', ''30''), (''name'', ''John'')] = ''age=30&name=John''"
    by (simp_all add: urlencode_eval)
  have l: "lastUrlParamsRef ?h = ''name=John&age=30''"
    by (simp add: hydrate_fields s1)
  have r: "reset_calls ?h
             = [\<lparr> proto = ObjectPrototype, own = [(''name'', JStr ''John''), (''age'', JNum 30)] \<rparr>]"
    by (simp add: reset_calls_hydrate restored_John_30 mount_def)
  show ?thesis
    using a l r s1 s2
      hydration_change_detection [OF a, of excerpt "[(''name'', ''John''), (''age'', ''30'')]" opts0]
      hydration_change_detection [OF a, of excerpt "[(''age'', ''30''), (''name'', ''John'')]" opts0]
    by (simp add: restored_John_30 hydrate_fields reset_calls_hydrate)
qed


section \<open>Debounce\<close>

subsection \<open>The second effect\<close>

lemma clear_pending_timers: "one_timer h \<Longrightarrow> timers (clear_pending h) = []"
proof (cases "timeoutRef h")
  case None
  assume "one_timer h"
  then have "timers h = []"
    using None by (cases "timers h") (simp_all add: one_timer_def)
  then show ?thesis
    using None by (simp add: clear_pending_def)
next
  case (Some t)
  assume "one_timer h"
  then show ?thesis
    using Some
    by (auto simp: one_timer_def clear_pending_def clearTimeout_def list_all_iff
        filter_empty_conv)
qed






subsection \<open>The clock\<close>












section \<open>The pending timeout\<close>

lemma pending_ok_filter:
  "pending_ok h \<Longrightarrow> timeoutRef h' = timeoutRef h \<Longrightarrow> timers h' = filter P (timers h)
   \<Longrightarrow> pending_ok h'"
  by (auto simp: pending_ok_def one_timer_def list_all_iff intro: le_trans [OF length_filter_le])

lemma pending_ok_same:
  "pending_ok h \<Longrightarrow> timeoutRef h' = timeoutRef h \<Longrightarrow> timers h' = timers h \<Longrightarrow> pending_ok h'"
  by (simp add: pending_ok_def one_timer_def)

lemma clearTimeout_fields:
  "timeoutRef (clearTimeout t h) = timeoutRef h"
  "timers (clearTimeout t h) = filter (\<lambda>x. fst x \<noteq> t) (timers h)"
  "now (clearTimeout t h) = now h"
  by (simp_all add: clearTimeout_def)

lemma pending_ok_clear_pending: "pending_ok h \<Longrightarrow> pending_ok (clear_pending h)"
  by (cases "timeoutRef h")
     (auto simp: clear_pending_def intro: pending_ok_filter [OF _ clearTimeout_fields(1,2)])

lemma pending_ok_run_cleanup: "pending_ok h \<Longrightarrow> pending_ok (run_cleanup h)"
  using pending_ok_clear_pending [of h]
  by (auto simp: run_cleanup_def pending_ok_def one_timer_def)

lemma pending_ok_values_effect: "pending_ok h \<Longrightarrow> pending_ok (values_effect opts v h)"
proof -
  assume "pending_ok h"
  then have c: "pending_ok (run_cleanup h)" by (rule pending_ok_run_cleanup)
  then have "timers (clear_pending (run_cleanup h)) = []"
    by (simp add: pending_ok_def clear_pending_timers)
  then show ?thesis
    using c
    by (simp add: values_effect_def values_effect_body_def Let_def pending_ok_def one_timer_def)
qed

lemma pending_ok_hydration_effect:
  "pending_ok h \<Longrightarrow> pending_ok (hydration_effect p opts searchParams h)"
  by (auto simp: hydration_effect_def Let_def intro: pending_ok_same [OF _ hydrate_fields(6,5)])

lemma pending_ok_run_microtask: "pending_ok h \<Longrightarrow> pending_ok (run_microtask h)"
  by (simp add: run_microtask_def pending_ok_def one_timer_def)

lemma pending_ok_publish:
  "pending_ok h \<Longrightarrow> pending_ok (publish p opts searchParams v h)"
  by (rule pending_ok_same [OF _ publish_refs(3,4)])

lemma pending_ok_fire_due:
  "pending_ok h \<Longrightarrow> pending_ok (fire_due p opts searchParams ts h)"
proof (induction ts arbitrary: h)
  case Nil
  then show ?case by simp
next
  case (Cons x ts)
  obtain t due v where x: "x = (t, due, v)" by (cases x)
  have "pending_ok (publish p opts searchParams v (clearTimeout t h))"
    using Cons.prems
    by (intro pending_ok_publish pending_ok_filter [OF _ clearTimeout_fields(1,2)])
  then show ?case
    using Cons x by simp
qed

lemma pending_ok_elapse: "pending_ok h \<Longrightarrow> pending_ok (elapse p opts searchParams dt h)"
  unfolding elapse_def Let_def
  by (rule pending_ok_fire_due) (simp add: pending_ok_def one_timer_def)

lemma pending_ok_step: "pending_ok h \<Longrightarrow> pending_ok (step p opts h e)"
  by (cases e)
     (simp_all add: pending_ok_hydration_effect pending_ok_run_microtask
        pending_ok_values_effect pending_ok_elapse unmount_def pending_ok_run_cleanup)

lemma pending_ok_run: "pending_ok (run p opts es)"
proof (induction es rule: rev_induct)
  case Nil
  then show ?case by (simp add: run_def pending_ok_def one_timer_def mount_def)
next
  case (snoc e es)
  then show ?case by (simp add: run_def pending_ok_step)
qed

text \<open>
  In every state that the hook reaches there is at most one pending timeout, and it is the
  one that \<^verbatim>\<open>timeoutRef\<close> holds.
\<close>

lemma run_one_timer: "one_timer (run p opts es)" and run_at_most_one: "length (timers (run p opts es)) \<le> 1"
  using pending_ok_run [of p opts es] by (simp_all add: pending_ok_def)


end
